theory Spec2Isabelle
  imports Complex_Main
begin

section \<open>Dispersive materials: the susceptibility classes of susceptibility.cpp\<close>

text \<open>
  The file under verification, \<^verbatim>\<open>src/susceptibility.cpp\<close>, implements
  \<^verbatim>\<open>susceptibility::clone\<close>, \<^verbatim>\<open>susceptibility::needs_P\<close>,
  \<^verbatim>\<open>susceptibility::needs_W_notowned\<close>,
  \<^verbatim>\<open>lorentzian_susceptibility::num_internal_data\<close> and
  \<^verbatim>\<open>lorentzian_susceptibility::update_P\<close>.  It includes \<^verbatim>\<open>meep.hpp\<close> and
  \<^verbatim>\<open>meep_internals.hpp\<close>, which declare the enumerations, the iteration macros, the
  helper functions, the grid volume and the classes.  Those headers are not part of the
  verified source.  The enumerations, the macros, the helper functions and the grid volume
  enter the embedding as parameters: the theorems below hold for every interpretation of
  them.  The data members of the classes are those this file uses.
\<close>

subsection \<open>Memory\<close>

text \<open>
  A \<^verbatim>\<open>realnum *\<close> is an address, \<^verbatim>\<open>NULL\<close> is the address 0, and \<^verbatim>\<open>p[i]\<close> is
  the cell at address \<open>p + i\<close>.  Memory is one store of cells shared by all arrays, so that overlapping
  arrays are expressible.  A read or write outside the array a pointer was allocated for is
  a read or write of whatever cell lies at that address.  Index arithmetic is done on
  the integers: an \<^verbatim>\<open>int\<close> index that addresses a cell of an array is far from overflow.
\<close>

type_synonym addr = int
type_synonym ptr = addr
type_synonym 'a mem = "addr \<Rightarrow> 'a"

definition NULL :: ptr where
  "NULL = 0"

subsection \<open>Declarations of meep.hpp, as parameters\<close>

text \<open>
  \<^verbatim>\<open>grid_volume\<close>: the members this file uses, \<^verbatim>\<open>gv.dim\<close>, \<^verbatim>\<open>gv.ntot()\<close> and
  \<^verbatim>\<open>gv.stride(d)\<close>.
\<close>

record ('d, 'n) grid_volume =
  gv_dim :: 'n
  gv_ntot :: int
  gv_stride :: "'d \<Rightarrow> int"

text \<open>
  The enumerations \<^verbatim>\<open>component\<close> (type \<open>'c\<close>), \<^verbatim>\<open>direction\<close> (type \<open>'d\<close>) and
  \<^verbatim>\<open>ndim\<close> (type \<open>'n\<close>), the sequences the macros \<^verbatim>\<open>FOR_COMPONENTS\<close>,
  \<^verbatim>\<open>FOR_DIRECTIONS\<close> and \<^verbatim>\<open>LOOP_OVER_VOL_OWNED\<close> run through, in their order of
  iteration, and the inline helper functions.
\<close>

record ('c, 'd, 'n) meep_hpp =
  FOR_COMPONENTS :: "'c list"
  FOR_DIRECTIONS :: "'d list"
  is_electric :: "'c \<Rightarrow> bool"
  is_magnetic :: "'c \<Rightarrow> bool"
  component_direction :: "'c \<Rightarrow> 'd"
  direction_component :: "'c \<Rightarrow> 'd \<Rightarrow> 'c"
  cycle_direction :: "'n \<Rightarrow> 'd \<Rightarrow> int \<Rightarrow> 'd"
  LOOP_OVER_VOL_OWNED :: "('d, 'n) grid_volume \<Rightarrow> 'c \<Rightarrow> int list"

text \<open>\<^verbatim>\<open>DOCMP2\<close> is \<^verbatim>\<open>for (int cmp=0;cmp<2;cmp++)\<close>.\<close>

definition DOCMP2 :: "nat list" where
  "DOCMP2 = [0, 1]"

text \<open>
  A table \<^verbatim>\<open>realnum *W[NUM_FIELD_COMPONENTS][2]\<close> of array pointers, indexed by
  component and by \<^verbatim>\<open>cmp\<close>.
\<close>

type_synonym 'c fields = "'c \<Rightarrow> nat \<Rightarrow> ptr"

subsection \<open>The susceptibility object\<close>

text \<open>
  Modelled from the spec: the class declarations of \<^verbatim>\<open>susceptibility\<close> and
  \<^verbatim>\<open>lorentzian_susceptibility\<close> are in meep.hpp.  Following the specification's data
  model, a susceptibility is one object that holds the identity, the oscillator parameters,
  the coupling tensor and the chain link.  The record has
  the data members this file reads and writes.  \<^verbatim>\<open>next\<close> and \<^verbatim>\<open>id\<close> are renamed
  (\<open>next_sus\<close>, \<open>id_sus\<close>); \<^verbatim>\<open>next\<close> points to another susceptibility object and is
  \<open>None\<close> when it is the null pointer.  The three oscillator parameters are the members
  \<^verbatim>\<open>lorentzian_susceptibility::update_P\<close> reads.  The type \<open>'a\<close> is the type of
  \<^verbatim>\<open>double\<close> and \<^verbatim>\<open>realnum\<close> values.
\<close>

record ('c, 'd, 'a) susceptibility =
  next_sus :: "nat option"
  ntot :: int
  id_sus :: int
  sigma :: "'c \<Rightarrow> 'd \<Rightarrow> ptr"
  trivial_sigma :: "'c \<Rightarrow> 'd \<Rightarrow> bool"
  omega_0 :: 'a
  gamma :: 'a
  no_omega_0_denominator :: bool

subsection \<open>needs_P and needs_W_notowned\<close>

text \<open>
  \<^verbatim>\<open>FOR_DIRECTIONS(d) if (!trivial_sigma[c][d] && W[direction_component(c, d)][0]) return true;
  return false;\<close>
\<close>

fun needs_P_loop ::
  "('c, 'd, 'n) meep_hpp \<Rightarrow> ('c, 'd, 'a) susceptibility \<Rightarrow> 'c \<Rightarrow> 'c fields \<Rightarrow> 'd list \<Rightarrow> bool"
where
  "needs_P_loop M sus c W [] = False"
| "needs_P_loop M sus c W (d # ds) =
     (if \<not> trivial_sigma sus c d \<and> W (direction_component M c d) 0 \<noteq> NULL then True
      else needs_P_loop M sus c W ds)"

definition needs_P ::
  "('c, 'd, 'n) meep_hpp \<Rightarrow> ('c, 'd, 'a) susceptibility \<Rightarrow> 'c \<Rightarrow> 'c fields \<Rightarrow> bool"
where
  "needs_P M sus c W =
     (if \<not> is_electric M c \<and> \<not> is_magnetic M c then False
      else needs_P_loop M sus c W (FOR_DIRECTIONS M))"

text \<open>
  \<^verbatim>\<open>FOR_DIRECTIONS(d) if (d != component_direction(c)) {
    component cP = direction_component(c, d);
    if (needs_P(cP, W) && !trivial_sigma[cP][component_direction(c)]) return true;
  }
  return false;\<close>
\<close>

fun needs_W_notowned_loop ::
  "('c, 'd, 'n) meep_hpp \<Rightarrow> ('c, 'd, 'a) susceptibility \<Rightarrow> 'c \<Rightarrow> 'c fields \<Rightarrow> 'd list \<Rightarrow> bool"
where
  "needs_W_notowned_loop M sus c W [] = False"
| "needs_W_notowned_loop M sus c W (d # ds) =
     (if d \<noteq> component_direction M c then
        (let cP = direction_component M c d in
         if needs_P M sus cP W \<and> \<not> trivial_sigma sus cP (component_direction M c) then True
         else needs_W_notowned_loop M sus c W ds)
      else needs_W_notowned_loop M sus c W ds)"

definition needs_W_notowned ::
  "('c, 'd, 'n) meep_hpp \<Rightarrow> ('c, 'd, 'a) susceptibility \<Rightarrow> 'c \<Rightarrow> 'c fields \<Rightarrow> bool"
where
  "needs_W_notowned M sus c W = needs_W_notowned_loop M sus c W (FOR_DIRECTIONS M)"

subsection \<open>Arithmetic on double and realnum values\<close>

text \<open>
  The kernel computes with \<^verbatim>\<open>double\<close> and \<^verbatim>\<open>realnum\<close> values.  Their operations
  are parameters of the embedding: a record of the four operations and of the constants the
  code writes (\<^verbatim>\<open>0\<close>, \<^verbatim>\<open>1\<close>, \<^verbatim>\<open>2\<close>, \<^verbatim>\<open>0.25\<close> and \<^verbatim>\<open>pi\<close> of meep.hpp).
  No law is assumed of them, so a statement proved for every such record holds for rounded
  floating-point operations too and fixes the grouping of every expression.  \<open>real_arith\<close>
  is the exact arithmetic of the real numbers.
\<close>

record 'a arith =
  f_add :: "'a \<Rightarrow> 'a \<Rightarrow> 'a"
  f_sub :: "'a \<Rightarrow> 'a \<Rightarrow> 'a"
  f_mul :: "'a \<Rightarrow> 'a \<Rightarrow> 'a"
  f_div :: "'a \<Rightarrow> 'a \<Rightarrow> 'a"
  f_0 :: 'a
  f_1 :: 'a
  f_2 :: 'a
  f_quarter :: 'a
  f_pi :: 'a

definition real_arith :: "real arith" where
  "real_arith =
     \<lparr>f_add = (+), f_sub = (-), f_mul = (*), f_div = (/),
      f_0 = 0, f_1 = 1, f_2 = 2, f_quarter = 1 / 4, f_pi = pi\<rparr>"

subsection \<open>num_internal_data\<close>

text \<open>
  \<^verbatim>\<open>int num = 0;
  FOR_COMPONENTS(c) DOCMP2 if (P[c][cmp]) num += gv.ntot();
  return num;\<close>

  \<^verbatim>\<open>num\<close> is an \<^verbatim>\<open>int\<close>, of 32 bits on the platforms Meep is built for: an addition
  whose result is not representable is undefined behaviour, and the model returns \<open>None\<close>
  from there on.
\<close>

definition INT_MAX :: int where
  "INT_MAX = 2147483647"

definition INT_MIN :: int where
  "INT_MIN = - 2147483648"

definition num_add :: "'c fields \<Rightarrow> ('d, 'n) grid_volume \<Rightarrow> 'c \<Rightarrow> nat \<Rightarrow> int option \<Rightarrow> int option"
where
  "num_add P gv c cmp num =
     (case num of
        None \<Rightarrow> None
      | Some n \<Rightarrow>
          if P c cmp \<noteq> NULL then
            (if INT_MIN \<le> n + gv_ntot gv \<and> n + gv_ntot gv \<le> INT_MAX then Some (n + gv_ntot gv)
             else None)
          else Some n)"

definition num_internal_data ::
  "('c, 'd, 'n) meep_hpp \<Rightarrow> 'c fields \<Rightarrow> ('d, 'n) grid_volume \<Rightarrow> int option"
where
  "num_internal_data M P gv =
     fold (\<lambda>c. fold (\<lambda>cmp. num_add P gv c cmp) DOCMP2) (FOR_COMPONENTS M) (Some 0)"

subsection \<open>update_P\<close>

text \<open>
  The constants computed once per call:
  \<^verbatim>\<open>const double omega2pi = 2*pi*omega_0, g2pi = gamma*2*pi;
  const double omega0dtsqr = omega2pi * omega2pi * dt * dt;
  const double gamma1inv = 1 / (1 + g2pi*dt/2), gamma1 = (1 - g2pi*dt/2);
  const double omega0dtsqr_denom = no_omega_0_denominator ? 0 : omega0dtsqr;\<close>
\<close>

definition omega2pi :: "'a arith \<Rightarrow> ('c, 'd, 'a) susceptibility \<Rightarrow> 'a" where
  "omega2pi A sus = f_mul A (f_mul A (f_2 A) (f_pi A)) (omega_0 sus)"

definition g2pi :: "'a arith \<Rightarrow> ('c, 'd, 'a) susceptibility \<Rightarrow> 'a" where
  "g2pi A sus = f_mul A (f_mul A (gamma sus) (f_2 A)) (f_pi A)"

definition omega0dtsqr :: "'a arith \<Rightarrow> ('c, 'd, 'a) susceptibility \<Rightarrow> 'a \<Rightarrow> 'a" where
  "omega0dtsqr A sus dt = f_mul A (f_mul A (f_mul A (omega2pi A sus) (omega2pi A sus)) dt) dt"

definition gamma1inv :: "'a arith \<Rightarrow> ('c, 'd, 'a) susceptibility \<Rightarrow> 'a \<Rightarrow> 'a" where
  "gamma1inv A sus dt =
     f_div A (f_1 A) (f_add A (f_1 A) (f_div A (f_mul A (g2pi A sus) dt) (f_2 A)))"

definition gamma1 :: "'a arith \<Rightarrow> ('c, 'd, 'a) susceptibility \<Rightarrow> 'a \<Rightarrow> 'a" where
  "gamma1 A sus dt = f_sub A (f_1 A) (f_div A (f_mul A (g2pi A sus) dt) (f_2 A))"

definition omega0dtsqr_denom :: "'a arith \<Rightarrow> ('c, 'd, 'a) susceptibility \<Rightarrow> 'a \<Rightarrow> 'a" where
  "omega0dtsqr_denom A sus dt = (if no_omega_0_denominator sus then f_0 A else omega0dtsqr A sus dt)"

text \<open>
  The macro
  \<^verbatim>\<open>#define OFFDIAG(u,g,sx,s) (0.25 * ((g[i]+g[i-sx])*u[i] + (g[i+s]+g[(i+s)-sx])*u[i+s]))\<close>
  with its formal parameters \<open>u\<close>, \<open>g\<close>, \<open>sx\<close>, \<open>s\<close> in the macro's order; the memory \<open>h\<close> and
  the loop index \<open>i\<close> are what the expansion finds in scope.
\<close>

definition OFFDIAG :: "'a arith \<Rightarrow> 'a mem \<Rightarrow> int \<Rightarrow> ptr \<Rightarrow> ptr \<Rightarrow> int \<Rightarrow> int \<Rightarrow> 'a" where
  "OFFDIAG A h i u g sx s =
     f_mul A (f_quarter A)
       (f_add A
          (f_mul A (f_add A (h (g + i)) (h (g + (i - sx)))) (h (u + i)))
          (f_mul A (f_add A (h (g + (i + s))) (h (g + ((i + s) - sx)))) (h (u + (i + s)))))"

text \<open>
  The bodies of the three point loops.  Each reads \<^verbatim>\<open>p[i]\<close> into \<^verbatim>\<open>pcur\<close>, evaluates
  the right-hand side on the memory before the assignment, assigns \<^verbatim>\<open>p[i]\<close> and then
  \<^verbatim>\<open>pp[i] = pcur\<close>.

  \<^verbatim>\<open>p[i] = gamma1inv * (pcur * (2 - omega0dtsqr_denom) - gamma1 * pp[i]
           + omega0dtsqr * (s[i] * w[i] + OFFDIAG(s1,w1,is1,is) + OFFDIAG(s2,w2,is2,is)));\<close>
\<close>

definition point_3x3 ::
  "'a arith \<Rightarrow> ('c, 'd, 'a) susceptibility \<Rightarrow> 'a \<Rightarrow> ptr \<Rightarrow> ptr \<Rightarrow> ptr \<Rightarrow> ptr \<Rightarrow>
   ptr \<Rightarrow> ptr \<Rightarrow> int \<Rightarrow> ptr \<Rightarrow> ptr \<Rightarrow> int \<Rightarrow> int \<Rightarrow> int \<Rightarrow> 'a mem \<Rightarrow> 'a mem"
where
  "point_3x3 A sus dt p pp s w s1 w1 is1 s2 w2 is2 is i h =
     (let pcur = h (p + i);
          h' = h(p + i :=
                 f_mul A (gamma1inv A sus dt)
                   (f_add A
                      (f_sub A
                         (f_mul A pcur (f_sub A (f_2 A) (omega0dtsqr_denom A sus dt)))
                         (f_mul A (gamma1 A sus dt) (h (pp + i))))
                      (f_mul A (omega0dtsqr A sus dt)
                         (f_add A
                            (f_add A (f_mul A (h (s + i)) (h (w + i)))
                               (OFFDIAG A h i s1 w1 is1 is))
                            (OFFDIAG A h i s2 w2 is2 is)))))
      in h'(pp + i := pcur))"

text \<open>
  \<^verbatim>\<open>p[i] = gamma1inv * (pcur * (2 - omega0dtsqr_denom) - gamma1 * pp[i]
           + omega0dtsqr * (s[i] * w[i] + OFFDIAG(s1,w1,is1,is)));\<close>
\<close>

definition point_2x2 ::
  "'a arith \<Rightarrow> ('c, 'd, 'a) susceptibility \<Rightarrow> 'a \<Rightarrow> ptr \<Rightarrow> ptr \<Rightarrow> ptr \<Rightarrow> ptr \<Rightarrow>
   ptr \<Rightarrow> ptr \<Rightarrow> int \<Rightarrow> int \<Rightarrow> int \<Rightarrow> 'a mem \<Rightarrow> 'a mem"
where
  "point_2x2 A sus dt p pp s w s1 w1 is1 is i h =
     (let pcur = h (p + i);
          h' = h(p + i :=
                 f_mul A (gamma1inv A sus dt)
                   (f_add A
                      (f_sub A
                         (f_mul A pcur (f_sub A (f_2 A) (omega0dtsqr_denom A sus dt)))
                         (f_mul A (gamma1 A sus dt) (h (pp + i))))
                      (f_mul A (omega0dtsqr A sus dt)
                         (f_add A (f_mul A (h (s + i)) (h (w + i)))
                            (OFFDIAG A h i s1 w1 is1 is)))))
      in h'(pp + i := pcur))"

text \<open>
  \<^verbatim>\<open>p[i] = gamma1inv * (pcur * (2 - omega0dtsqr_denom) - gamma1 * pp[i]
           + omega0dtsqr * (s[i] * w[i]));\<close>
\<close>

definition point_iso ::
  "'a arith \<Rightarrow> ('c, 'd, 'a) susceptibility \<Rightarrow> 'a \<Rightarrow> ptr \<Rightarrow> ptr \<Rightarrow> ptr \<Rightarrow> ptr \<Rightarrow>
   int \<Rightarrow> 'a mem \<Rightarrow> 'a mem"
where
  "point_iso A sus dt p pp s w i h =
     (let pcur = h (p + i);
          h' = h(p + i :=
                 f_mul A (gamma1inv A sus dt)
                   (f_add A
                      (f_sub A
                         (f_mul A pcur (f_sub A (f_2 A) (omega0dtsqr_denom A sus dt)))
                         (f_mul A (gamma1 A sus dt) (h (pp + i))))
                      (f_mul A (omega0dtsqr A sus dt) (f_mul A (h (s + i)) (h (w + i))))))
      in h'(pp + i := pcur))"

text \<open>
  The two candidate off-diagonal directions of component \<open>c\<close>, each with its component, its
  signed stride, its field array and its coupling array, after the exchange
  \<^verbatim>\<open>if (s2 && !s1) { SWAP(direction, d1, d2); SWAP(component, c1, c2); SWAP(int, is1, is2);
    SWAP(const realnum *, w1, w2); SWAP(const realnum *, s1, s2); }\<close>
\<close>

type_synonym ('c, 'd) offdiag = "'d \<times> 'c \<times> int \<times> ptr \<times> ptr"

definition offdiag_directions ::
  "('c, 'd, 'n) meep_hpp \<Rightarrow> ('c, 'd, 'a) susceptibility \<Rightarrow> 'c fields \<Rightarrow> ('d, 'n) grid_volume \<Rightarrow>
   'c \<Rightarrow> nat \<Rightarrow> ('c, 'd) offdiag \<times> ('c, 'd) offdiag"
where
  "offdiag_directions M sus W gv c cmp =
     (let d = component_direction M c;
          d1 = cycle_direction M (gv_dim gv) d 1;
          c1 = direction_component M c d1;
          is1 = gv_stride gv d1 * (if is_magnetic M c then - 1 else 1);
          w1 = W c1 cmp;
          s1 = (if w1 \<noteq> NULL then sigma sus c d1 else NULL);
          d2 = cycle_direction M (gv_dim gv) d 2;
          c2 = direction_component M c d2;
          is2 = gv_stride gv d2 * (if is_magnetic M c then - 1 else 1);
          w2 = W c2 cmp;
          s2 = (if w2 \<noteq> NULL then sigma sus c d2 else NULL)
      in if s2 \<noteq> NULL \<and> \<not> s1 \<noteq> NULL then ((d2, c2, is2, w2, s2), (d1, c1, is1, w1, s1))
         else ((d1, c1, is1, w1, s1), (d2, c2, is2, w2, s2)))"

text \<open>
  The body of \<^verbatim>\<open>FOR_COMPONENTS(c) DOCMP2 if (P[c][cmp]) { ... P_prev += gv.ntot(); }\<close>
  for one \<open>c\<close> and one \<open>cmp\<close>, on the memory and the cursor \<^verbatim>\<open>P_prev\<close>.
\<close>

definition update_P_c ::
  "'a arith \<Rightarrow> ('c, 'd, 'n) meep_hpp \<Rightarrow> ('c, 'd, 'a) susceptibility \<Rightarrow> 'c fields \<Rightarrow> 'c fields \<Rightarrow>
   'a \<Rightarrow> ('d, 'n) grid_volume \<Rightarrow> 'c \<Rightarrow> nat \<Rightarrow> 'a mem \<times> ptr \<Rightarrow> 'a mem \<times> ptr"
where
  "update_P_c A M sus P W dt gv c cmp st =
     (case st of (h, P_prev) \<Rightarrow>
        if P c cmp \<noteq> NULL then
          (let w = W c cmp;
               s = sigma sus c (component_direction M c)
           in ((if w \<noteq> NULL \<and> s \<noteq> NULL then
                  (let p = P c cmp;
                       pp = P_prev;
                       d = component_direction M c;
                       is = gv_stride gv d * (if is_magnetic M c then - 1 else 1)
                   in case offdiag_directions M sus W gv c cmp of
                        ((d1, c1, is1, w1, s1), (d2, c2, is2, w2, s2)) \<Rightarrow>
                          if s1 \<noteq> NULL \<and> s2 \<noteq> NULL then
                            fold (point_3x3 A sus dt p pp s w s1 w1 is1 s2 w2 is2 is)
                              (LOOP_OVER_VOL_OWNED M gv c) h
                          else if s1 \<noteq> NULL then
                            fold (point_2x2 A sus dt p pp s w s1 w1 is1 is)
                              (LOOP_OVER_VOL_OWNED M gv c) h
                          else
                            fold (point_iso A sus dt p pp s w) (LOOP_OVER_VOL_OWNED M gv c) h)
                else h),
               P_prev + gv_ntot gv))
        else (h, P_prev))"

text \<open>
  The whole call: the loops start from \<^verbatim>\<open>P_prev = P_internal_data\<close>.  The argument
  \<open>W_prev\<close> is received and not used (\<^verbatim>\<open>(void) W_prev; // unused\<close>).  The function returns
  nothing; its result is the memory it leaves.  \<open>update_P_run\<close> also gives the final value
  of the cursor.
\<close>

definition update_P_run ::
  "'a arith \<Rightarrow> ('c, 'd, 'n) meep_hpp \<Rightarrow> ('c, 'd, 'a) susceptibility \<Rightarrow> 'c fields \<Rightarrow> 'c fields \<Rightarrow>
   'c fields \<Rightarrow> 'a \<Rightarrow> ('d, 'n) grid_volume \<Rightarrow> ptr \<Rightarrow> 'a mem \<Rightarrow> 'a mem \<times> ptr"
where
  "update_P_run A M sus P W W_prev dt gv P_internal_data h =
     fold (\<lambda>c. fold (\<lambda>cmp. update_P_c A M sus P W dt gv c cmp) DOCMP2) (FOR_COMPONENTS M)
       (h, P_internal_data)"

definition update_P ::
  "'a arith \<Rightarrow> ('c, 'd, 'n) meep_hpp \<Rightarrow> ('c, 'd, 'a) susceptibility \<Rightarrow> 'c fields \<Rightarrow> 'c fields \<Rightarrow>
   'c fields \<Rightarrow> 'a \<Rightarrow> ('d, 'n) grid_volume \<Rightarrow> ptr \<Rightarrow> 'a mem \<Rightarrow> 'a mem"
where
  "update_P A M sus P W W_prev dt gv P_internal_data h =
     fst (update_P_run A M sus P W W_prev dt gv P_internal_data h)"

subsection \<open>clone\<close>

text \<open>
  \<^verbatim>\<open>new realnum[ntot]\<close> takes the next \<open>n\<close> cells from the free store, which begins at the
  address \<open>brk\<close>: every cell handed out before lies below \<open>brk\<close>.  A negative length makes
  \<^verbatim>\<open>new\<close> throw; that is the result \<open>None\<close>.  The free store itself is not bounded.
\<close>

definition new_realnum :: "int \<Rightarrow> 'a mem \<times> addr \<Rightarrow> (ptr \<times> 'a mem \<times> addr) option" where
  "new_realnum n st = (case st of (h, brk) \<Rightarrow> if n < 0 then None else Some (brk, h, brk + n))"

text \<open>
  \<^verbatim>\<open>memcpy(dst, src, sizeof(realnum) * n)\<close> copies \<open>n\<close> cells.
\<close>

definition memcpy :: "ptr \<Rightarrow> ptr \<Rightarrow> int \<Rightarrow> 'a mem \<Rightarrow> 'a mem" where
  "memcpy dst src n h = (\<lambda>a. if dst \<le> a \<and> a < dst + n then h (src + (a - dst)) else h a)"

text \<open>
  The body of \<^verbatim>\<open>FOR_COMPONENTS(c) FOR_DIRECTIONS(d) { ... }\<close> for one \<open>c\<close> and one \<open>d\<close>:
  \<^verbatim>\<open>if (sigma[c][d]) {
    sus->sigma[c][d] = new realnum[ntot];
    memcpy(sus->sigma[c][d], sigma[c][d], sizeof(realnum) * ntot);
  }
  else sus->sigma[c][d] = NULL;
  sus->trivial_sigma[c][d] = trivial_sigma[c][d];\<close>
  The state is the new object, the memory and the start of the free store.
\<close>

type_synonym ('c, 'd, 'a) clone_state = "('c, 'd, 'a) susceptibility \<times> 'a mem \<times> addr"

definition clone_entry ::
  "('c, 'd, 'a) susceptibility \<Rightarrow> 'c \<Rightarrow> 'd \<Rightarrow> ('c, 'd, 'a) clone_state option \<Rightarrow>
   ('c, 'd, 'a) clone_state option"
where
  "clone_entry this c d st =
     (case st of
        None \<Rightarrow> None
      | Some (sus, h, brk) \<Rightarrow>
          if sigma this c d \<noteq> NULL then
            (case new_realnum (ntot this) (h, brk) of
               None \<Rightarrow> None
             | Some (a, h1, brk1) \<Rightarrow>
                 Some (sus\<lparr>sigma := (sigma sus)(c := (sigma sus c)(d := a)),
                           trivial_sigma :=
                             (trivial_sigma sus)(c := (trivial_sigma sus c)(d := trivial_sigma this c d))\<rparr>,
                       memcpy a (sigma this c d) (ntot this) h1, brk1))
          else
            Some (sus\<lparr>sigma := (sigma sus)(c := (sigma sus c)(d := NULL)),
                      trivial_sigma :=
                        (trivial_sigma sus)(c := (trivial_sigma sus c)(d := trivial_sigma this c d))\<rparr>,
                  h, brk))"

text \<open>
  Modelled from the spec: the copy constructor \<^verbatim>\<open>susceptibility(const susceptibility &)\<close>,
  which is declared in meep.hpp.  It copies every data member: the specification says of
  \<^verbatim>\<open>clone\<close> that it copies oscillator parameters and id verbatim, and the coupling entries
  are set anew by the loops of \<^verbatim>\<open>clone\<close>.
\<close>

definition susceptibility_copy :: "('c, 'd, 'a) susceptibility \<Rightarrow> ('c, 'd, 'a) susceptibility" where
  "susceptibility_copy other = other"

text \<open>
  \<^verbatim>\<open>susceptibility *sus = new susceptibility(*this);
  sus->next = 0; sus->ntot = ntot; sus->id = id;\<close> and the loops.  The store of
  \<^verbatim>\<open>realnum\<close> cells does not hold the object itself.
\<close>

definition clone ::
  "('c, 'd, 'n) meep_hpp \<Rightarrow> ('c, 'd, 'a) susceptibility \<Rightarrow> 'a mem \<Rightarrow> addr \<Rightarrow>
   ('c, 'd, 'a) clone_state option"
where
  "clone M this h brk =
     fold (\<lambda>c. fold (\<lambda>d. clone_entry this c d) (FOR_DIRECTIONS M)) (FOR_COMPONENTS M)
       (Some ((susceptibility_copy this)\<lparr>next_sus := None, ntot := ntot this, id_sus := id_sus this\<rparr>,
              h, brk))"

subsection \<open>Notions used to state the properties\<close>

text \<open>
  The pairs \<open>(c, cmp)\<close> in the order in which \<^verbatim>\<open>FOR_COMPONENTS(c) DOCMP2\<close> visits them; a
  pair is active when \<^verbatim>\<open>P[c][cmp]\<close> is not null.
\<close>

definition pairs :: "('c, 'd, 'n) meep_hpp \<Rightarrow> ('c \<times> nat) list" where
  "pairs M = List.product (FOR_COMPONENTS M) DOCMP2"

definition active :: "'c fields \<Rightarrow> 'c \<times> nat \<Rightarrow> bool" where
  "active P q = (P (fst q) (snd q) \<noteq> NULL)"

definition num_active :: "('c, 'd, 'n) meep_hpp \<Rightarrow> 'c fields \<Rightarrow> int" where
  "num_active M P = int (length (filter (active P) (pairs M)))"

text \<open>
  The place of a pair in the backing store: \<^verbatim>\<open>gv.ntot()\<close> cells for every active pair
  that comes before it.
\<close>

definition P_prev_at ::
  "('c, 'd, 'n) meep_hpp \<Rightarrow> 'c fields \<Rightarrow> ('d, 'n) grid_volume \<Rightarrow> ptr \<Rightarrow> 'c \<times> nat \<Rightarrow> ptr"
where
  "P_prev_at M P gv P_internal_data q =
     P_internal_data +
     gv_ntot gv * int (length (filter (active P) (takeWhile (\<lambda>q'. q' \<noteq> q) (pairs M))))"

text \<open>The block of \<open>n\<close> cells at \<open>a\<close> and the block of \<open>m\<close> cells at \<open>b\<close> lie apart.\<close>

definition sep :: "addr \<Rightarrow> int \<Rightarrow> addr \<Rightarrow> int \<Rightarrow> bool" where
  "sep a n b m = (a + n \<le> b \<or> b + m \<le> a)"

text \<open>
  The arrays as the setup layer lays them out.  \<^verbatim>\<open>FOR_COMPONENTS\<close> visits no component
  twice; for every active pair, \<^verbatim>\<open>LOOP_OVER_VOL_OWNED\<close> visits no index twice and stays
  within \<open>0 \<le> i < gv.ntot()\<close>; the polarization arrays of the active pairs, of
  \<^verbatim>\<open>gv.ntot()\<close> cells each, lie apart from each other and from the backing store of
  \<^verbatim>\<open>gv.ntot()\<close> cells per active pair; and the field array and the diagonal coupling array
  of an active pair, when present, lie apart from the backing store and from every
  polarization array.  The backing store and these arrays are allocated: their addresses
  are above \<^verbatim>\<open>NULL\<close>.
\<close>

definition layout_ok ::
  "('c, 'd, 'n) meep_hpp \<Rightarrow> ('c, 'd, 'a) susceptibility \<Rightarrow> 'c fields \<Rightarrow> 'c fields \<Rightarrow>
   ('d, 'n) grid_volume \<Rightarrow> ptr \<Rightarrow> bool"
where
  "layout_ok M sus P W gv P_internal_data =
     (let K = gv_ntot gv;
          act = filter (active P) (pairs M);
          n = K * int (length act)
      in distinct (FOR_COMPONENTS M) \<and> 0 \<le> K \<and>
         (\<forall>q \<in> set act.
            distinct (LOOP_OVER_VOL_OWNED M gv (fst q)) \<and>
            (\<forall>i \<in> set (LOOP_OVER_VOL_OWNED M gv (fst q)). 0 \<le> i \<and> i < K) \<and>
            sep (P (fst q) (snd q)) K P_internal_data n \<and>
            (\<forall>q' \<in> set act. q \<noteq> q' \<longrightarrow> sep (P (fst q) (snd q)) K (P (fst q') (snd q')) K) \<and>
            (\<forall>a \<in> {W (fst q) (snd q), sigma sus (fst q) (component_direction M (fst q))}.
               a \<noteq> NULL \<longrightarrow>
               sep a K P_internal_data n \<and>
               (\<forall>q' \<in> set act. sep a K (P (fst q') (snd q')) K)) \<and>
            NULL < P_internal_data \<and> NULL < P (fst q) (snd q) \<and>
            (\<forall>a \<in> {W (fst q) (snd q), sigma sus (fst q) (component_direction M (fst q))}.
               a \<noteq> NULL \<longrightarrow> NULL < a)))"

text \<open>
  The recurrence as the specification words it, on the real numbers: with
  \<open>\<Omega> = 2\<pi>\<cdot>f0\<close>, \<open>\<Gamma> = 2\<pi>\<cdot>\<gamma>\<close>, \<open>a = (\<Omega>\<cdot>dt)\<^sup>2\<close> and \<open>a_denom\<close> equal to 0 under the
  stability-mode flag and to \<open>a\<close> otherwise,
  \<open>p_new = (1/(1+\<Gamma>\<cdot>dt/2)) \<cdot> (p_cur\<cdot>(2 - a_denom) - (1-\<Gamma>\<cdot>dt/2)\<cdot>p_prev + a\<cdot>\<sigma>\<cdot>w)\<close>.
\<close>

definition spec_recurrence ::
  "real \<Rightarrow> real \<Rightarrow> bool \<Rightarrow> real \<Rightarrow> real \<Rightarrow> real \<Rightarrow> real \<Rightarrow> real \<Rightarrow> real"
where
  "spec_recurrence f0 \<gamma> flag dt p_cur p_prev \<sigma> w =
     (let \<Omega> = 2 * pi * f0;
          \<Gamma> = 2 * pi * \<gamma>;
          a = (\<Omega> * dt)\<^sup>2;
          a_denom = (if flag then 0 else a)
      in (1 / (1 + \<Gamma> * dt / 2)) * (p_cur * (2 - a_denom) - (1 - \<Gamma> * dt / 2) * p_prev + a * \<sigma> * w))"

text \<open>
  The off-diagonal contribution as the specification words it:
  \<open>0.25 \<cdot> ((\<sigma>_off[i] + \<sigma>_off[i-stride_own]) \<cdot> w_off[i]
     + (\<sigma>_off[i+stride_off] + \<sigma>_off[i+stride_off-stride_own]) \<cdot> w_off[i+stride_off])\<close>.
\<close>

definition offdiag_spec :: "'a arith \<Rightarrow> 'a mem \<Rightarrow> int \<Rightarrow> ptr \<Rightarrow> ptr \<Rightarrow> int \<Rightarrow> int \<Rightarrow> 'a" where
  "offdiag_spec A h i sigma_off w_off stride_off stride_own =
     f_mul A (f_quarter A)
       (f_add A
          (f_mul A (f_add A (h (sigma_off + i)) (h (sigma_off + (i - stride_own)))) (h (w_off + i)))
          (f_mul A
             (f_add A (h (sigma_off + (i + stride_off))) (h (sigma_off + (i + stride_off - stride_own))))
             (h (w_off + (i + stride_off)))))"



text \<open>
  The cells one call of \<^verbatim>\<open>update_P\<close> reads: for a pair that is updated, at every owned point
  the cells \<^verbatim>\<open>p[i]\<close>, \<^verbatim>\<open>pp[i]\<close>, \<^verbatim>\<open>s[i]\<close>, \<^verbatim>\<open>w[i]\<close> and those of the off-diagonal
  averages of the branch taken.  Two memories agree outside a set \<open>R\<close> when they hold the
  same value in every cell that is not in \<open>R\<close>.
\<close>

definition OFFDIAG_reads :: "int \<Rightarrow> ptr \<Rightarrow> ptr \<Rightarrow> int \<Rightarrow> int \<Rightarrow> addr set" where
  "OFFDIAG_reads i u g sx s =
     {g + i, g + (i - sx), u + i, g + (i + s), g + ((i + s) - sx), u + (i + s)}"

definition update_P_c_reads ::
  "('c, 'd, 'n) meep_hpp \<Rightarrow> ('c, 'd, 'a) susceptibility \<Rightarrow> 'c fields \<Rightarrow> 'c fields \<Rightarrow>
   ('d, 'n) grid_volume \<Rightarrow> 'c \<Rightarrow> nat \<Rightarrow> ptr \<Rightarrow> addr set"
where
  "update_P_c_reads M sus P W gv c cmp P_prev =
     (let p = P c cmp; w = W c cmp; d = component_direction M c; s = sigma sus c d;
          is = gv_stride gv d * (if is_magnetic M c then - 1 else 1)
      in if p \<noteq> NULL \<and> w \<noteq> NULL \<and> s \<noteq> NULL then
           (case offdiag_directions M sus W gv c cmp of
              ((d1, c1, is1, w1, s1), (d2, c2, is2, w2, s2)) \<Rightarrow>
                (\<Union>i \<in> set (LOOP_OVER_VOL_OWNED M gv c).
                   {p + i, P_prev + i, s + i, w + i}
                   \<union> (if s1 \<noteq> NULL then OFFDIAG_reads i s1 w1 is1 is else {})
                   \<union> (if s1 \<noteq> NULL \<and> s2 \<noteq> NULL then OFFDIAG_reads i s2 w2 is2 is else {})))
         else {})"

fun update_P_reads_from ::
  "('c, 'd, 'n) meep_hpp \<Rightarrow> ('c, 'd, 'a) susceptibility \<Rightarrow> 'c fields \<Rightarrow> 'c fields \<Rightarrow>
   ('d, 'n) grid_volume \<Rightarrow> ('c \<times> nat) list \<Rightarrow> ptr \<Rightarrow> addr set"
where
  "update_P_reads_from M sus P W gv [] P_prev = {}"
| "update_P_reads_from M sus P W gv (q # qs) P_prev =
     update_P_c_reads M sus P W gv (fst q) (snd q) P_prev \<union>
     update_P_reads_from M sus P W gv qs (if active P q then P_prev + gv_ntot gv else P_prev)"

definition update_P_reads ::
  "('c, 'd, 'n) meep_hpp \<Rightarrow> ('c, 'd, 'a) susceptibility \<Rightarrow> 'c fields \<Rightarrow> 'c fields \<Rightarrow>
   ('d, 'n) grid_volume \<Rightarrow> ptr \<Rightarrow> addr set"
where
  "update_P_reads M sus P W gv P_internal_data =
     update_P_reads_from M sus P W gv (pairs M) P_internal_data"

definition agree_outside :: "addr set \<Rightarrow> 'a mem \<Rightarrow> 'a mem \<Rightarrow> bool" where
  "agree_outside R h h' = (\<forall>a. a \<notin> R \<longrightarrow> h a = h' a)"

text \<open>
  The invariant of the loops of \<^verbatim>\<open>clone\<close>, for the set \<open>S\<close> of entries \<open>(c, d)\<close> already
  visited: the free store has only grown, the memory below its first start \<open>brk\<close> is as
  it was, and the copy of every visited entry is a block of the new part, holds the
  original's values and lies apart from the copies of the other visited entries.
\<close>

definition clone_inv ::
  "('c, 'd, 'a) susceptibility \<Rightarrow> 'a mem \<Rightarrow> addr \<Rightarrow> ('c \<times> 'd) set \<Rightarrow> ('c, 'd, 'a) clone_state \<Rightarrow> bool"
where
  "clone_inv this h brk S st =
     (case st of (sus, h', brk') \<Rightarrow>
        brk \<le> brk' \<and> (\<forall>a. a < brk \<longrightarrow> h' a = h a) \<and>
        next_sus sus = None \<and> ntot sus = ntot this \<and> id_sus sus = id_sus this \<and>
        omega_0 sus = omega_0 this \<and> gamma sus = gamma this \<and>
        no_omega_0_denominator sus = no_omega_0_denominator this \<and>
        (\<forall>q \<in> S.
           trivial_sigma sus (fst q) (snd q) = trivial_sigma this (fst q) (snd q) \<and>
           (sigma this (fst q) (snd q) = NULL \<longrightarrow> sigma sus (fst q) (snd q) = NULL) \<and>
           (sigma this (fst q) (snd q) \<noteq> NULL \<longrightarrow>
              brk \<le> sigma sus (fst q) (snd q) \<and> sigma sus (fst q) (snd q) + ntot this \<le> brk' \<and>
              (\<forall>k. 0 \<le> k \<and> k < ntot this \<longrightarrow>
                 h' (sigma sus (fst q) (snd q) + k) = h (sigma this (fst q) (snd q) + k)) \<and>
              (\<forall>q' \<in> S. q' \<noteq> q \<and> sigma this (fst q') (snd q') \<noteq> NULL \<longrightarrow>
                 sep (sigma sus (fst q) (snd q)) (ntot this)
                   (sigma sus (fst q') (snd q')) (ntot this)))))"

subsection \<open>An instance of the declarations, for evaluation at concrete inputs\<close>

datatype xcomponent = E_x | E_y | E_z | H_x | H_y | H_z | Dielectric
datatype xdirection = X_dir | Y_dir | Z_dir | NO_DIRECTION

fun x_is_electric :: "xcomponent \<Rightarrow> bool" where
  "x_is_electric E_x = True"
| "x_is_electric E_y = True"
| "x_is_electric E_z = True"
| "x_is_electric c = False"

fun x_is_magnetic :: "xcomponent \<Rightarrow> bool" where
  "x_is_magnetic H_x = True"
| "x_is_magnetic H_y = True"
| "x_is_magnetic H_z = True"
| "x_is_magnetic c = False"

fun x_component_direction :: "xcomponent \<Rightarrow> xdirection" where
  "x_component_direction E_x = X_dir"
| "x_component_direction E_y = Y_dir"
| "x_component_direction E_z = Z_dir"
| "x_component_direction H_x = X_dir"
| "x_component_direction H_y = Y_dir"
| "x_component_direction H_z = Z_dir"
| "x_component_direction Dielectric = NO_DIRECTION"

fun x_direction_component :: "xcomponent \<Rightarrow> xdirection \<Rightarrow> xcomponent" where
  "x_direction_component c NO_DIRECTION = c"
| "x_direction_component Dielectric d = Dielectric"
| "x_direction_component c X_dir = (if x_is_electric c then E_x else H_x)"
| "x_direction_component c Y_dir = (if x_is_electric c then E_y else H_y)"
| "x_direction_component c Z_dir = (if x_is_electric c then E_z else H_z)"

fun x_cycle_direction :: "unit \<Rightarrow> xdirection \<Rightarrow> int \<Rightarrow> xdirection" where
  "x_cycle_direction u X_dir s = (if s = 1 then Y_dir else Z_dir)"
| "x_cycle_direction u Y_dir s = (if s = 1 then Z_dir else X_dir)"
| "x_cycle_direction u Z_dir s = (if s = 1 then X_dir else Y_dir)"
| "x_cycle_direction u NO_DIRECTION s = NO_DIRECTION"

text \<open>A grid of two by two points, all of them owned (indices 0 to 3).\<close>

definition x_meep :: "(xcomponent, xdirection, unit) meep_hpp" where
  "x_meep =
     \<lparr>FOR_COMPONENTS = [E_x, E_y, E_z, H_x, H_y, H_z],
      FOR_DIRECTIONS = [X_dir, Y_dir, Z_dir],
      is_electric = x_is_electric,
      is_magnetic = x_is_magnetic,
      component_direction = x_component_direction,
      direction_component = x_direction_component,
      cycle_direction = x_cycle_direction,
      LOOP_OVER_VOL_OWNED = (\<lambda>gv c. [0, 1, 2, 3])\<rparr>"

definition x_gv :: "(xdirection, unit) grid_volume" where
  "x_gv = \<lparr>gv_dim = (), gv_ntot = 4, gv_stride = (\<lambda>d. if d = X_dir then 2 else 1)\<rparr>"

text \<open>
  A susceptibility whose only coupling entries are those of \<open>E_x\<close>, in the three
  directions (arrays at 100, 110 and 120), and a field set in which only \<open>E_x\<close> with
  \<open>cmp = 0\<close> (at address 200) is present.
\<close>

definition x_sus :: "(xcomponent, xdirection, real) susceptibility" where
  "x_sus =
     \<lparr>next_sus = Some 7, ntot = 4, id_sus = 3,
      sigma = (\<lambda>c d. if c = E_x \<and> d = X_dir then 100
                      else if c = E_x \<and> d = Y_dir then 110
                      else if c = E_x \<and> d = Z_dir then 120 else NULL),
      trivial_sigma = (\<lambda>c d. c \<noteq> E_x \<or> d = NO_DIRECTION),
      omega_0 = 1, gamma = 0, no_omega_0_denominator = False\<rparr>"

definition x_W :: "xcomponent fields" where
  "x_W = (\<lambda>c cmp. if c = E_x \<and> cmp = 0 then 200 else NULL)"

text \<open>
  Polarization arrays for \<open>E_x\<close> only: at 300 for \<open>cmp = 0\<close> and at 310 for \<open>cmp = 1\<close>
  (the field \<open>x_W\<close> has no array for \<open>cmp = 1\<close>).  The backing store is at 400.
\<close>

definition x_P :: "xcomponent fields" where
  "x_P = (\<lambda>c cmp. if c = E_x then (if cmp = 0 then 300 else 310) else NULL)"

definition x_mem :: "real mem" where
  "x_mem = (\<lambda>a. of_int a)"

text \<open>
  Two more field sets: \<open>x_W1\<close> has \<open>E_x\<close> for \<open>cmp = 1\<close> only, \<open>x_W2\<close> has \<open>E_x\<close> and
  \<open>E_z\<close> for \<open>cmp = 0\<close>.  \<open>x_sus_trivial\<close> is \<open>x_sus\<close> with an entirely trivial coupling
  tensor.
\<close>

definition x_W1 :: "xcomponent fields" where
  "x_W1 = (\<lambda>c cmp. if c = E_x \<and> cmp = 1 then 200 else NULL)"

definition x_W2 :: "xcomponent fields" where
  "x_W2 = (\<lambda>c cmp. if c = E_x \<and> cmp = 0 then 200 else if c = E_z \<and> cmp = 0 then 220 else NULL)"


text \<open>
  The same declarations for a grid volume that owns two of its four points only (indices 1
  and 2): \<^verbatim>\<open>LOOP_OVER_VOL_OWNED\<close> visits the owned points, \<^verbatim>\<open>gv.ntot()\<close> counts all four.
\<close>

definition x_meep_half :: "(xcomponent, xdirection, unit) meep_hpp" where
  "x_meep_half = x_meep\<lparr>LOOP_OVER_VOL_OWNED := (\<lambda>gv c. [1, 2])\<rparr>"

section \<open>The allocation policy\<close>

lemma needs_P_loop_iff:
  "needs_P_loop M sus c W ds \<longleftrightarrow>
     (\<exists>d \<in> set ds. \<not> trivial_sigma sus c d \<and> W (direction_component M c d) 0 \<noteq> NULL)"
  by (induction ds) auto

text \<open>
  C3.  \<^verbatim>\<open>needs_P(c, W)\<close> is true exactly when \<open>c\<close> is an electric or a magnetic
  component and some direction \<open>d\<close> of \<^verbatim>\<open>FOR_DIRECTIONS\<close> has a non-trivial coupling
  entry \<open>(c, d)\<close> while the array \<^verbatim>\<open>W[direction_component(c, d)][0]\<close> is not null.
\<close>

theorem needs_P_iff:
  "needs_P M sus c W \<longleftrightarrow>
     (is_electric M c \<or> is_magnetic M c) \<and>
     (\<exists>d \<in> set (FOR_DIRECTIONS M).
        \<not> trivial_sigma sus c d \<and> W (direction_component M c d) 0 \<noteq> NULL)"
  unfolding needs_P_def by (simp add: needs_P_loop_iff)

theorem needs_P_iff_witness:
  "needs_P x_meep x_sus E_x x_W \<and> \<not> needs_P x_meep x_sus E_y x_W
   \<and> \<not> needs_P x_meep x_sus Dielectric x_W"
  using needs_P_iff [of x_meep x_sus E_x x_W] needs_P_iff [of x_meep x_sus E_y x_W]
    needs_P_iff [of x_meep x_sus Dielectric x_W]
  by (simp add: x_meep_def x_sus_def x_W_def NULL_def)

lemma needs_W_notowned_loop_iff:
  "needs_W_notowned_loop M sus c W ds \<longleftrightarrow>
     (\<exists>d \<in> set ds. d \<noteq> component_direction M c \<and>
        needs_P M sus (direction_component M c d) W \<and>
        \<not> trivial_sigma sus (direction_component M c d) (component_direction M c))"
  by (induction ds) (auto simp: Let_def)

text \<open>
  C4.  \<^verbatim>\<open>needs_W_notowned(c, W)\<close> is true exactly when some direction \<open>d\<close> of
  \<^verbatim>\<open>FOR_DIRECTIONS\<close> other than the axis of \<open>c\<close> gives a component
  \<open>cP = direction_component(c, d)\<close> with \<^verbatim>\<open>needs_P(cP, W)\<close> and a non-trivial coupling
  entry \<open>(cP, component_direction(c))\<close>.
\<close>

theorem needs_W_notowned_iff:
  "needs_W_notowned M sus c W \<longleftrightarrow>
     (\<exists>d \<in> set (FOR_DIRECTIONS M). d \<noteq> component_direction M c \<and>
        needs_P M sus (direction_component M c d) W \<and>
        \<not> trivial_sigma sus (direction_component M c d) (component_direction M c))"
  unfolding needs_W_notowned_def by (rule needs_W_notowned_loop_iff)

theorem needs_W_notowned_iff_witness:
  "needs_W_notowned x_meep x_sus E_y x_W \<and> \<not> needs_W_notowned x_meep x_sus E_x x_W"
  using needs_W_notowned_iff [of x_meep x_sus E_y x_W]
    needs_W_notowned_iff [of x_meep x_sus E_x x_W]
  by (simp add: x_meep_def x_sus_def x_W_def needs_P_def NULL_def)

section \<open>The update kernel\<close>

subsection \<open>The loop over the pairs, the cursor and the cells a pair writes\<close>

lemma fold_nested:
  "fold (\<lambda>c. fold (f c) ys) xs s = fold (\<lambda>q. f (fst q) (snd q)) (List.product xs ys) s"
  by (induction xs arbitrary: s) (simp_all add: fold_map comp_def)

lemma update_P_run_pairs:
  "update_P_run A M sus P W W_prev dt gv bs h =
     fold (\<lambda>q. update_P_c A M sus P W dt gv (fst q) (snd q)) (pairs M) (h, bs)"
  unfolding update_P_run_def pairs_def by (rule fold_nested)

lemma num_internal_data_pairs:
  "num_internal_data M P gv = fold (\<lambda>q. num_add P gv (fst q) (snd q)) (pairs M) (Some 0)"
  unfolding num_internal_data_def pairs_def by (rule fold_nested)

lemma snd_update_P_c:
  "snd (update_P_c A M sus P W dt gv c cmp (h, cur)) =
     (if P c cmp \<noteq> NULL then cur + gv_ntot gv else cur)"
  by (simp add: update_P_c_def Let_def)

lemma cursor_fold:
  "snd (fold (\<lambda>q. update_P_c A M sus P W dt gv (fst q) (snd q)) qs (h, cur)) =
     cur + gv_ntot gv * int (length (filter (active P) qs))"
proof (induction qs arbitrary: h cur)
  case Nil
  show ?case by simp
next
  case (Cons q qs)
  obtain h' cur' where st: "update_P_c A M sus P W dt gv (fst q) (snd q) (h, cur) = (h', cur')"
    by (cases "update_P_c A M sus P W dt gv (fst q) (snd q) (h, cur)")
  have cur': "cur' = (if active P q then cur + gv_ntot gv else cur)"
    using snd_update_P_c [of A M sus P W dt gv "fst q" "snd q" h cur] st
    by (simp add: active_def)
  show ?case
    by (simp add: st Cons.IH cur' algebra_simps)
qed

lemma num_fold:
  "0 \<le> n \<Longrightarrow> 0 \<le> gv_ntot gv \<Longrightarrow>
   n + gv_ntot gv * int (length (filter (active P) qs)) \<le> INT_MAX \<Longrightarrow>
   fold (\<lambda>q. num_add P gv (fst q) (snd q)) qs (Some n) =
     Some (n + gv_ntot gv * int (length (filter (active P) qs)))"
proof (induction qs arbitrary: n)
  case Nil
  show ?case by simp
next
  case (Cons q qs)
  define k where "k = gv_ntot gv * int (length (filter (active P) qs))"
  have k0: "0 \<le> k"
    unfolding k_def using Cons.prems(2) by simp
  show ?case
  proof (cases "active P q")
    case True
    have tot: "gv_ntot gv * int (length (filter (active P) (q # qs))) = gv_ntot gv + k"
      using True by (simp add: k_def algebra_simps)
    have bound: "n + gv_ntot gv + k \<le> INT_MAX"
      using Cons.prems(3) tot by simp
    have step: "num_add P gv (fst q) (snd q) (Some n) = Some (n + gv_ntot gv)"
      using True bound k0 Cons.prems(1,2)
      by (simp add: num_add_def active_def INT_MIN_def INT_MAX_def)
    have "fold (\<lambda>q. num_add P gv (fst q) (snd q)) qs (Some (n + gv_ntot gv)) =
        Some (n + gv_ntot gv + k)"
      unfolding k_def
      using Cons.prems(1,2) bound by (intro Cons.IH) (simp_all add: k_def)
    then show ?thesis using True by (simp add: step k_def algebra_simps)
  next
    case False
    have step: "num_add P gv (fst q) (snd q) (Some n) = Some n"
      using False by (simp add: num_add_def active_def)
    show ?thesis using False Cons.prems by (simp add: step Cons.IH)
  qed
qed

lemma point_iso_frame:
  "a \<noteq> p + i \<Longrightarrow> a \<noteq> pp + i \<Longrightarrow> point_iso A sus dt p pp s w i h a = h a"
  by (simp add: point_iso_def Let_def)

lemma point_2x2_frame:
  "a \<noteq> p + i \<Longrightarrow> a \<noteq> pp + i \<Longrightarrow> point_2x2 A sus dt p pp s w s1 w1 is1 is0 i h a = h a"
  by (simp add: point_2x2_def Let_def)

lemma point_3x3_frame:
  "a \<noteq> p + i \<Longrightarrow> a \<noteq> pp + i \<Longrightarrow>
   point_3x3 A sus dt p pp s w s1 w1 is1 s2 w2 is2 is0 i h a = h a"
  by (simp add: point_3x3_def Let_def)

lemma fold_frame:
  assumes "\<And>i h. a \<noteq> p + i \<Longrightarrow> a \<noteq> pp + i \<Longrightarrow> f i h a = h a"
    and "\<forall>i \<in> set ixs. a \<noteq> p + i \<and> a \<noteq> pp + i"
  shows "fold f ixs h a = h a"
  using assms(2)
proof (induction ixs arbitrary: h)
  case Nil
  show ?case by simp
next
  case (Cons i ixs)
  have "fold f ixs (f i h) a = f i h a"
    using Cons.prems by (intro Cons.IH) simp
  also have "f i h a = h a"
    using Cons.prems by (intro assms(1)) simp_all
  finally show ?case by simp
qed

lemma loop_iso_frame:
  "\<forall>i \<in> set ixs. a \<noteq> p + i \<and> a \<noteq> pp + i \<Longrightarrow>
   fold (point_iso A sus dt p pp s w) ixs h a = h a"
  by (rule fold_frame [where f = "point_iso A sus dt p pp s w" and p = p and pp = pp])
    (simp_all add: point_iso_frame)

lemma loop_2x2_frame:
  "\<forall>i \<in> set ixs. a \<noteq> p + i \<and> a \<noteq> pp + i \<Longrightarrow>
   fold (point_2x2 A sus dt p pp s w s1 w1 is1 is0) ixs h a = h a"
  by (rule fold_frame [where f = "point_2x2 A sus dt p pp s w s1 w1 is1 is0" and p = p and pp = pp])
    (simp_all add: point_2x2_frame)

lemma loop_3x3_frame:
  "\<forall>i \<in> set ixs. a \<noteq> p + i \<and> a \<noteq> pp + i \<Longrightarrow>
   fold (point_3x3 A sus dt p pp s w s1 w1 is1 s2 w2 is2 is0) ixs h a = h a"
  by (rule fold_frame
      [where f = "point_3x3 A sus dt p pp s w s1 w1 is1 s2 w2 is2 is0" and p = p and pp = pp])
    (simp_all add: point_3x3_frame)

lemma update_P_c_frame:
  assumes "\<forall>i \<in> set (LOOP_OVER_VOL_OWNED M gv c). a \<noteq> P c cmp + i \<and> a \<noteq> cur + i"
  shows "fst (update_P_c A M sus P W dt gv c cmp (h, cur)) a = h a"
proof -
  obtain d1 c1 is1 w1 s1 d2 c2 is2 w2 s2 where
    od: "offdiag_directions M sus W gv c cmp = ((d1, c1, is1, w1, s1), (d2, c2, is2, w2, s2))"
    by (metis prod_cases5 surj_pair)
  show ?thesis
    using assms
    by (simp add: update_P_c_def Let_def od loop_iso_frame loop_2x2_frame loop_3x3_frame)
qed

lemma point_iso_cong:
  "h (p + i) = h' (p + i) \<Longrightarrow> h (pp + i) = h' (pp + i) \<Longrightarrow> h (s + i) = h' (s + i) \<Longrightarrow>
   h (w + i) = h' (w + i) \<Longrightarrow> p + i \<noteq> pp + i \<Longrightarrow>
   point_iso A sus dt p pp s w i h (p + i) = point_iso A sus dt p pp s w i h' (p + i)"
  by (simp add: point_iso_def Let_def)

lemma loop_iso:
  assumes "distinct ixs"
    and "\<forall>i \<in> set ixs. \<forall>j \<in> set ixs.
           p + i \<noteq> pp + j \<and> s + i \<noteq> p + j \<and> s + i \<noteq> pp + j \<and> w + i \<noteq> p + j \<and> w + i \<noteq> pp + j"
    and "i \<in> set ixs"
  shows "fold (point_iso A sus dt p pp s w) ixs h (p + i) = point_iso A sus dt p pp s w i h (p + i)
       \<and> fold (point_iso A sus dt p pp s w) ixs h (pp + i) = h (p + i)"
  using assms
proof (induction ixs arbitrary: h)
  case Nil
  then show ?case by simp
next
  case (Cons j ixs)
  let ?f = "point_iso A sus dt p pp s w"
  have sep: "\<forall>i \<in> set ixs. \<forall>j \<in> set ixs.
           p + i \<noteq> pp + j \<and> s + i \<noteq> p + j \<and> s + i \<noteq> pp + j \<and> w + i \<noteq> p + j \<and> w + i \<noteq> pp + j"
    using Cons.prems(2) by simp
  show ?case
  proof (cases "i = j")
    case True
    have notin: "j \<notin> set ixs" using Cons.prems(1) by simp
    have f1: "fold ?f ixs (?f j h) (p + j) = ?f j h (p + j)"
      using Cons.prems(2) notin
      by (intro loop_iso_frame) auto
    have f2: "fold ?f ixs (?f j h) (pp + j) = ?f j h (pp + j)"
      using Cons.prems(2) notin
      by (intro loop_iso_frame) auto
    have "?f j h (pp + j) = h (p + j)"
      by (simp add: point_iso_def Let_def)
    then show ?thesis using True f1 f2 by simp
  next
    case False
    then have mem: "i \<in> set ixs" using Cons.prems(3) by simp
    have d: "distinct ixs" using Cons.prems(1) by simp
    have ih: "fold ?f ixs (?f j h) (p + i) = ?f i (?f j h) (p + i)
       \<and> fold ?f ixs (?f j h) (pp + i) = ?f j h (p + i)"
      by (rule Cons.IH [OF d sep mem])
    have ne: "p + i \<noteq> p + j" "p + i \<noteq> pp + j" "pp + i \<noteq> p + j" "pp + i \<noteq> pp + j"
      "s + i \<noteq> p + j" "s + i \<noteq> pp + j" "w + i \<noteq> p + j" "w + i \<noteq> pp + j"
      using Cons.prems(2) mem False by auto
    have same: "?f j h (p + i) = h (p + i)" "?f j h (pp + i) = h (pp + i)"
      "?f j h (s + i) = h (s + i)" "?f j h (w + i) = h (w + i)"
      using ne by (simp_all add: point_iso_frame)
    have "p + i \<noteq> pp + i"
      using Cons.prems(2) mem by auto
    then have "?f i (?f j h) (p + i) = ?f i h (p + i)"
      by (intro point_iso_cong same)
    then show ?thesis using ih same by simp
  qed
qed

lemma update_P_c_inactive:
  "P c cmp = NULL \<Longrightarrow> update_P_c A M sus P W dt gv c cmp st = st"
  by (cases st) (simp add: update_P_c_def)

lemma pairs_frame:
  assumes K: "0 \<le> gv_ntot gv"
    and own: "\<forall>q \<in> set qs. active P q \<longrightarrow>
                (\<forall>i \<in> set (LOOP_OVER_VOL_OWNED M gv (fst q)). 0 \<le> i \<and> i < gv_ntot gv)"
    and notP: "\<forall>q \<in> set qs. active P q \<longrightarrow>
                 \<not> (P (fst q) (snd q) \<le> a \<and> a < P (fst q) (snd q) + gv_ntot gv)"
    and notB: "\<not> (cur \<le> a \<and> a < cur + gv_ntot gv * int (length (filter (active P) qs)))"
  shows "fst (fold (\<lambda>q. update_P_c A M sus P W dt gv (fst q) (snd q)) qs (h, cur)) a = h a"
  using own notP notB
proof (induction qs arbitrary: h cur)
  case Nil
  show ?case by simp
next
  case (Cons q qs)
  let ?step = "\<lambda>q. update_P_c A M sus P W dt gv (fst q) (snd q)"
  define k where "k = gv_ntot gv * int (length (filter (active P) qs))"
  have k0: "0 \<le> k" unfolding k_def using K by simp
  show ?case
  proof (cases "active P q")
    case False
    then have "?step q (h, cur) = (h, cur)"
      by (simp add: update_P_c_inactive active_def)
    moreover have "fst (fold ?step qs (h, cur)) a = h a"
      using Cons.prems False by (intro Cons.IH) simp_all
    ultimately show ?thesis by simp
  next
    case True
    obtain h' cur' where st: "?step q (h, cur) = (h', cur')"
      by (cases "?step q (h, cur)")
    have cur': "cur' = cur + gv_ntot gv"
      using snd_update_P_c [of A M sus P W dt gv "fst q" "snd q" h cur] st True
      by (simp add: active_def)
    have tot: "gv_ntot gv * int (length (filter (active P) (q # qs))) = gv_ntot gv + k"
      using True by (simp add: k_def algebra_simps)
    have nb: "\<not> (cur \<le> a \<and> a < cur + (gv_ntot gv + k))"
      using Cons.prems(3) tot by simp
    have rng: "\<forall>i \<in> set (LOOP_OVER_VOL_OWNED M gv (fst q)). 0 \<le> i \<and> i < gv_ntot gv"
      using Cons.prems(1) True by simp
    have np: "\<not> (P (fst q) (snd q) \<le> a \<and> a < P (fst q) (snd q) + gv_ntot gv)"
      using Cons.prems(2) True by simp
    have "\<forall>i \<in> set (LOOP_OVER_VOL_OWNED M gv (fst q)). a \<noteq> P (fst q) (snd q) + i \<and> a \<noteq> cur + i"
      using rng np nb k0 by fastforce
    then have "fst (?step q (h, cur)) a = h a"
      by (rule update_P_c_frame)
    then have h': "h' a = h a" using st by simp
    have "\<not> (cur' \<le> a \<and> a < cur' + k)"
      using nb K cur' by linarith
    then have "fst (fold ?step qs (h', cur')) a = h' a"
      unfolding k_def using Cons.prems(1,2) by (intro Cons.IH) simp_all
    then show ?thesis using st h' by simp
  qed
qed

lemma sep_ne:
  "sep a n b m \<Longrightarrow> 0 \<le> i \<Longrightarrow> i < n \<Longrightarrow> 0 \<le> j \<Longrightarrow> j < m \<Longrightarrow> a + i \<noteq> b + j"
  unfolding sep_def by linarith

lemma update_P_c_iso:
  assumes "P c cmp \<noteq> NULL" and "W c cmp \<noteq> NULL"
    and "sigma sus c (component_direction M c) \<noteq> NULL"
    and "W (direction_component M c (cycle_direction M (gv_dim gv) (component_direction M c) 1)) cmp = NULL
         \<or> sigma sus c (cycle_direction M (gv_dim gv) (component_direction M c) 1) = NULL"
    and "W (direction_component M c (cycle_direction M (gv_dim gv) (component_direction M c) 2)) cmp = NULL
         \<or> sigma sus c (cycle_direction M (gv_dim gv) (component_direction M c) 2) = NULL"
  shows "update_P_c A M sus P W dt gv c cmp (h, cur) =
     (fold (point_iso A sus dt (P c cmp) cur (sigma sus c (component_direction M c)) (W c cmp))
        (LOOP_OVER_VOL_OWNED M gv c) h,
      cur + gv_ntot gv)"
  using assms by (auto simp: update_P_c_def offdiag_directions_def Let_def)

lemma distinct_pairs: "distinct (FOR_COMPONENTS M) \<Longrightarrow> distinct (pairs M)"
  by (simp add: pairs_def DOCMP2_def distinct_product)

lemma P_prev_at_split:
  assumes "pairs M = pre @ q # post" and "q \<notin> set pre"
  shows "P_prev_at M P gv bs q = bs + gv_ntot gv * int (length (filter (active P) pre))"
proof -
  have "takeWhile (\<lambda>q'. q' \<noteq> q) (pre @ q # post) = pre"
    using assms(2) by (induction pre) auto
  then show ?thesis by (simp add: P_prev_at_def assms(1))
qed

lemma layout_ok_D:
  assumes "layout_ok M sus P W gv bs" and "q \<in> set (filter (active P) (pairs M))"
  shows "distinct (LOOP_OVER_VOL_OWNED M gv (fst q))"
    and "\<forall>i \<in> set (LOOP_OVER_VOL_OWNED M gv (fst q)). 0 \<le> i \<and> i < gv_ntot gv"
    and "sep (P (fst q) (snd q)) (gv_ntot gv) bs
           (gv_ntot gv * int (length (filter (active P) (pairs M))))"
    and "\<forall>q' \<in> set (filter (active P) (pairs M)).
           q \<noteq> q' \<longrightarrow> sep (P (fst q) (snd q)) (gv_ntot gv) (P (fst q') (snd q')) (gv_ntot gv)"
    and "W (fst q) (snd q) \<noteq> NULL \<Longrightarrow>
           sep (W (fst q) (snd q)) (gv_ntot gv) bs
             (gv_ntot gv * int (length (filter (active P) (pairs M)))) \<and>
           (\<forall>q' \<in> set (filter (active P) (pairs M)).
              sep (W (fst q) (snd q)) (gv_ntot gv) (P (fst q') (snd q')) (gv_ntot gv))"
    and "sigma sus (fst q) (component_direction M (fst q)) \<noteq> NULL \<Longrightarrow>
           sep (sigma sus (fst q) (component_direction M (fst q))) (gv_ntot gv) bs
             (gv_ntot gv * int (length (filter (active P) (pairs M)))) \<and>
           (\<forall>q' \<in> set (filter (active P) (pairs M)).
              sep (sigma sus (fst q) (component_direction M (fst q))) (gv_ntot gv)
                (P (fst q') (snd q')) (gv_ntot gv))"
proof -
  have all: "distinct (LOOP_OVER_VOL_OWNED M gv (fst q)) \<and>
            (\<forall>i \<in> set (LOOP_OVER_VOL_OWNED M gv (fst q)). 0 \<le> i \<and> i < gv_ntot gv) \<and>
            sep (P (fst q) (snd q)) (gv_ntot gv) bs
              (gv_ntot gv * int (length (filter (active P) (pairs M)))) \<and>
            (\<forall>q' \<in> set (filter (active P) (pairs M)).
               q \<noteq> q' \<longrightarrow> sep (P (fst q) (snd q)) (gv_ntot gv) (P (fst q') (snd q')) (gv_ntot gv)) \<and>
            (\<forall>a \<in> {W (fst q) (snd q), sigma sus (fst q) (component_direction M (fst q))}.
               a \<noteq> NULL \<longrightarrow>
               sep a (gv_ntot gv) bs (gv_ntot gv * int (length (filter (active P) (pairs M)))) \<and>
               (\<forall>q' \<in> set (filter (active P) (pairs M)).
                  sep a (gv_ntot gv) (P (fst q') (snd q')) (gv_ntot gv)))"
    using assms unfolding layout_ok_def Let_def by blast
  show "distinct (LOOP_OVER_VOL_OWNED M gv (fst q))"
    and "\<forall>i \<in> set (LOOP_OVER_VOL_OWNED M gv (fst q)). 0 \<le> i \<and> i < gv_ntot gv"
    and "sep (P (fst q) (snd q)) (gv_ntot gv) bs
           (gv_ntot gv * int (length (filter (active P) (pairs M))))"
    and "\<forall>q' \<in> set (filter (active P) (pairs M)).
           q \<noteq> q' \<longrightarrow> sep (P (fst q) (snd q)) (gv_ntot gv) (P (fst q') (snd q')) (gv_ntot gv)"
    using all by blast+
  show "W (fst q) (snd q) \<noteq> NULL \<Longrightarrow>
           sep (W (fst q) (snd q)) (gv_ntot gv) bs
             (gv_ntot gv * int (length (filter (active P) (pairs M)))) \<and>
           (\<forall>q' \<in> set (filter (active P) (pairs M)).
              sep (W (fst q) (snd q)) (gv_ntot gv) (P (fst q') (snd q')) (gv_ntot gv))"
    using all by blast
  show "sigma sus (fst q) (component_direction M (fst q)) \<noteq> NULL \<Longrightarrow>
           sep (sigma sus (fst q) (component_direction M (fst q))) (gv_ntot gv) bs
             (gv_ntot gv * int (length (filter (active P) (pairs M)))) \<and>
           (\<forall>q' \<in> set (filter (active P) (pairs M)).
              sep (sigma sus (fst q) (component_direction M (fst q))) (gv_ntot gv)
                (P (fst q') (snd q')) (gv_ntot gv))"
    using all by blast
qed

lemma out_of_block:
  "sep a K b n \<Longrightarrow> 0 \<le> i \<Longrightarrow> i < K \<Longrightarrow> b \<le> lo \<Longrightarrow> hi \<le> b + n \<Longrightarrow> \<not> (lo \<le> a + i \<and> a + i < hi)"
  unfolding sep_def by linarith

lemma out_of_block2:
  "sep b K a n \<Longrightarrow> a \<le> x \<Longrightarrow> x < a + n \<Longrightarrow> \<not> (b \<le> x \<and> x < b + K)"
  unfolding sep_def by linarith

lemma update_P_localise:
  assumes lay: "layout_ok M sus P W gv bs"
    and q: "(c, cmp) \<in> set (pairs M)"
    and p: "P c cmp \<noteq> NULL" and w: "W c cmp \<noteq> NULL"
    and s: "sigma sus c (component_direction M c) \<noteq> NULL"
    and i: "i \<in> set (LOOP_OVER_VOL_OWNED M gv c)"
  shows "\<exists>h1.
      (\<forall>a. a = P c cmp + i \<or> a = P_prev_at M P gv bs (c, cmp) + i \<or>
           a = sigma sus c (component_direction M c) + i \<or> a = W c cmp + i \<longrightarrow> h1 a = h a) \<and>
      update_P A M sus P W W_prev dt gv bs h (P c cmp + i) =
        fst (update_P_c A M sus P W dt gv c cmp (h1, P_prev_at M P gv bs (c, cmp))) (P c cmp + i) \<and>
      update_P A M sus P W W_prev dt gv bs h (P_prev_at M P gv bs (c, cmp) + i) =
        fst (update_P_c A M sus P W dt gv c cmp (h1, P_prev_at M P gv bs (c, cmp)))
          (P_prev_at M P gv bs (c, cmp) + i) \<and>
      distinct (LOOP_OVER_VOL_OWNED M gv c) \<and>
      (\<forall>i \<in> set (LOOP_OVER_VOL_OWNED M gv c). \<forall>j \<in> set (LOOP_OVER_VOL_OWNED M gv c).
         P c cmp + i \<noteq> P_prev_at M P gv bs (c, cmp) + j \<and>
         sigma sus c (component_direction M c) + i \<noteq> P c cmp + j \<and>
         sigma sus c (component_direction M c) + i \<noteq> P_prev_at M P gv bs (c, cmp) + j \<and>
         W c cmp + i \<noteq> P c cmp + j \<and> W c cmp + i \<noteq> P_prev_at M P gv bs (c, cmp) + j)"
proof -
  let ?K = "gv_ntot gv"
  let ?step = "\<lambda>q. update_P_c A M sus P W dt gv (fst q) (snd q)"
  let ?own = "LOOP_OVER_VOL_OWNED M gv c"
  let ?s = "sigma sus c (component_direction M c)"
  let ?act = "filter (active P) (pairs M)"
  define pp where "pp = P_prev_at M P gv bs (c, cmp)"
  define n where "n = ?K * int (length ?act)"
  have dist: "distinct (pairs M)"
    using lay by (simp add: layout_ok_def Let_def distinct_pairs)
  obtain pre post where split: "pairs M = pre @ (c, cmp) # post"
    using q by (meson split_list)
  have npre: "(c, cmp) \<notin> set pre" and npost: "(c, cmp) \<notin> set post"
    using dist split by auto
  define j where "j = ?K * int (length (filter (active P) pre))"
  define m where "m = ?K * int (length (filter (active P) post))"
  have K0: "0 \<le> ?K" using lay by (simp add: layout_ok_def Let_def)
  have j0: "0 \<le> j" and m0: "0 \<le> m" using K0 by (simp_all add: j_def m_def)
  have qact: "active P (c, cmp)" using p by (simp add: active_def)
  have n_eq: "n = j + ?K + m"
    using qact by (simp add: n_def j_def m_def split algebra_simps)
  have pp_eq: "pp = bs + j"
    unfolding pp_def j_def by (rule P_prev_at_split [OF split npre])
  have qin: "(c, cmp) \<in> set ?act" using q qact by simp
  note D = layout_ok_D [OF lay qin, simplified, folded n_def]
  have own_d: "distinct ?own" by (rule D(1))
  have own_r: "\<forall>i \<in> set ?own. 0 \<le> i \<and> i < ?K" by (rule D(2))
  have sepPB: "sep (P c cmp) ?K bs n" by (rule D(3))
  have sepWB: "sep (W c cmp) ?K bs n" using D(5) w by simp
  have sepSB: "sep ?s ?K bs n" using D(6) s by simp
  have sepWP: "sep (W c cmp) ?K (P (fst q') (snd q')) ?K" if "q' \<in> set ?act" for q'
    using D(5) w that by simp
  have sepSP: "sep ?s ?K (P (fst q') (snd q')) ?K" if "q' \<in> set ?act" for q'
    using D(6) s that by simp
  have sepPP: "sep (P (fst q') (snd q')) ?K (P c cmp) ?K"
    if "q' \<in> set ?act" "q' \<noteq> (c, cmp)" for q'
    using layout_ok_D(4) [OF lay that(1)] qin that(2) by simp
  have sepQB: "sep (P (fst q') (snd q')) ?K bs n" if "q' \<in> set ?act" for q'
    using layout_ok_D(3) [OF lay that] by (simp add: n_def)
  have own_all: "\<forall>q' \<in> set (pairs M). active P q' \<longrightarrow>
      (\<forall>i \<in> set (LOOP_OVER_VOL_OWNED M gv (fst q')). 0 \<le> i \<and> i < ?K)"
    using layout_ok_D(2) [OF lay] by simp
  have irng: "0 \<le> i" "i < ?K" using own_r i by auto
  \<comment> \<open>no other pair's polarization array holds one of the four cells of point \<open>i\<close>\<close>
  have notP: "\<not> (P (fst q') (snd q') \<le> a \<and> a < P (fst q') (snd q') + ?K)"
    if a: "a = P c cmp + i \<or> a = pp + i \<or> a = ?s + i \<or> a = W c cmp + i"
      and q': "q' \<in> set (pairs M)" "active P q'" "q' \<noteq> (c, cmp)" for a q'
  proof -
    have q'in: "q' \<in> set ?act" using q' by simp
    have 1: "\<not> (P (fst q') (snd q') \<le> P c cmp + i \<and> P c cmp + i < P (fst q') (snd q') + ?K)"
      using irng by (intro out_of_block2 [OF sepPP [OF q'in q'(3)]]) simp_all
    have 2: "\<not> (P (fst q') (snd q') \<le> pp + i \<and> pp + i < P (fst q') (snd q') + ?K)"
      using irng j0 m0 by (intro out_of_block2 [OF sepQB [OF q'in]]) (simp_all add: pp_eq n_eq)
    have 3: "\<not> (P (fst q') (snd q') \<le> ?s + i \<and> ?s + i < P (fst q') (snd q') + ?K)"
      using irng by (intro out_of_block [OF sepSP [OF q'in]]) simp_all
    have 4: "\<not> (P (fst q') (snd q') \<le> W c cmp + i \<and> W c cmp + i < P (fst q') (snd q') + ?K)"
      using irng by (intro out_of_block [OF sepWP [OF q'in]]) simp_all
    show ?thesis using a 1 2 3 4 by blast
  qed
  have notB: "\<not> (bs \<le> a \<and> a < bs + j)"
    if a: "a = P c cmp + i \<or> a = pp + i \<or> a = ?s + i \<or> a = W c cmp + i" for a
  proof -
    have 1: "\<not> (bs \<le> P c cmp + i \<and> P c cmp + i < bs + j)"
      using irng j0 m0 by (intro out_of_block [OF sepPB]) (simp_all add: n_eq)
    have 2: "\<not> (bs \<le> pp + i \<and> pp + i < bs + j)"
      using irng by (simp add: pp_eq)
    have 3: "\<not> (bs \<le> ?s + i \<and> ?s + i < bs + j)"
      using irng j0 m0 by (intro out_of_block [OF sepSB]) (simp_all add: n_eq)
    have 4: "\<not> (bs \<le> W c cmp + i \<and> W c cmp + i < bs + j)"
      using irng j0 m0 by (intro out_of_block [OF sepWB]) (simp_all add: n_eq)
    show ?thesis using a 1 2 3 4 by blast
  qed
  \<comment> \<open>the pairs before \<open>(c, cmp)\<close> leave the four cells as they are\<close>
  obtain h1 cur1 where st1: "fold ?step pre (h, bs) = (h1, cur1)"
    by (cases "fold ?step pre (h, bs)")
  have cur1: "cur1 = pp"
    using cursor_fold [of A M sus P W dt gv pre h bs] st1 by (simp add: pp_eq j_def)
  have h1: "h1 a = h a"
    if a: "a = P c cmp + i \<or> a = pp + i \<or> a = ?s + i \<or> a = W c cmp + i" for a
  proof -
    have "fst (fold ?step pre (h, bs)) a = h a"
    proof (rule pairs_frame [OF K0])
      show "\<forall>q \<in> set pre. active P q \<longrightarrow>
          (\<forall>i \<in> set (LOOP_OVER_VOL_OWNED M gv (fst q)). 0 \<le> i \<and> i < ?K)"
        using own_all split by auto
      show "\<forall>q \<in> set pre. active P q \<longrightarrow>
          \<not> (P (fst q) (snd q) \<le> a \<and> a < P (fst q) (snd q) + ?K)"
      proof (intro ballI impI)
        fix q' assume "q' \<in> set pre" "active P q'"
        then show "\<not> (P (fst q') (snd q') \<le> a \<and> a < P (fst q') (snd q') + ?K)"
          using npre split by (intro notP [OF a]) auto
      qed
      show "\<not> (bs \<le> a \<and> a < bs + ?K * int (length (filter (active P) pre)))"
        using notB [OF a] by (simp add: j_def)
    qed
    then show ?thesis using st1 by simp
  qed
  \<comment> \<open>the pair itself\<close>
  define h2 where "h2 = fst (update_P_c A M sus P W dt gv c cmp (h1, pp))"
  have st2: "update_P_c A M sus P W dt gv c cmp (h1, cur1) = (h2, pp + ?K)"
    using snd_update_P_c [of A M sus P W dt gv c cmp h1 pp] p
    by (simp add: h2_def cur1 prod_eq_iff)
  have loc: "\<forall>i \<in> set ?own. \<forall>j \<in> set ?own.
      P c cmp + i \<noteq> pp + j \<and> ?s + i \<noteq> P c cmp + j \<and> ?s + i \<noteq> pp + j \<and>
      W c cmp + i \<noteq> P c cmp + j \<and> W c cmp + i \<noteq> pp + j"
  proof (intro ballI)
    fix i' j' assume "i' \<in> set ?own" "j' \<in> set ?own"
    then have r: "0 \<le> i'" "i' < ?K" "0 \<le> j'" "j' < ?K" using own_r by auto
    have jn: "0 \<le> j + j'" "j + j' < n" using r j0 m0 by (simp_all add: n_eq)
    have a1: "P c cmp + i' \<noteq> bs + (j + j')" by (rule sep_ne [OF sepPB r(1,2) jn])
    have a2: "?s + i' \<noteq> P c cmp + j'" by (rule sep_ne [OF sepSP [OF qin, simplified] r])
    have a3: "?s + i' \<noteq> bs + (j + j')" by (rule sep_ne [OF sepSB r(1,2) jn])
    have a4: "W c cmp + i' \<noteq> P c cmp + j'" by (rule sep_ne [OF sepWP [OF qin, simplified] r])
    have a5: "W c cmp + i' \<noteq> bs + (j + j')" by (rule sep_ne [OF sepWB r(1,2) jn])
    show "P c cmp + i' \<noteq> pp + j' \<and> ?s + i' \<noteq> P c cmp + j' \<and> ?s + i' \<noteq> pp + j' \<and>
      W c cmp + i' \<noteq> P c cmp + j' \<and> W c cmp + i' \<noteq> pp + j'"
      using a1 a2 a3 a4 a5 by (simp add: pp_eq add.assoc)
  qed
  \<comment> \<open>the pairs after \<open>(c, cmp)\<close> leave \<open>p[i]\<close> and \<open>pp[i]\<close> as they are\<close>
  have post: "fst (fold ?step post (h2, pp + ?K)) a = h2 a"
    if a: "a = P c cmp + i \<or> a = pp + i" for a
  proof (rule pairs_frame [OF K0])
    show "\<forall>q \<in> set post. active P q \<longrightarrow>
        (\<forall>i \<in> set (LOOP_OVER_VOL_OWNED M gv (fst q)). 0 \<le> i \<and> i < ?K)"
      using own_all split by auto
    show "\<forall>q \<in> set post. active P q \<longrightarrow>
        \<not> (P (fst q) (snd q) \<le> a \<and> a < P (fst q) (snd q) + ?K)"
    proof (intro ballI impI)
      fix q' assume "q' \<in> set post" "active P q'"
      then show "\<not> (P (fst q') (snd q') \<le> a \<and> a < P (fst q') (snd q') + ?K)"
        using npost split a by (intro notP) auto
    qed
    have 1: "\<not> (pp + ?K \<le> P c cmp + i \<and> P c cmp + i < pp + ?K + m)"
      using irng j0 K0 by (intro out_of_block [OF sepPB]) (simp_all add: n_eq pp_eq)
    have 2: "\<not> (pp + ?K \<le> pp + i \<and> pp + i < pp + ?K + m)"
      using irng by simp
    show "\<not> (pp + ?K \<le> a \<and> a < pp + ?K + ?K * int (length (filter (active P) post)))"
      using a 1 2 unfolding m_def by blast
  qed
  have run: "update_P A M sus P W W_prev dt gv bs h = fst (fold ?step post (h2, pp + ?K))"
    by (simp add: update_P_def update_P_run_pairs split st1 st2)
  have all: "(\<forall>a. a = P c cmp + i \<or> a = pp + i \<or> a = ?s + i \<or> a = W c cmp + i \<longrightarrow> h1 a = h a) \<and>
      update_P A M sus P W W_prev dt gv bs h (P c cmp + i) =
        fst (update_P_c A M sus P W dt gv c cmp (h1, pp)) (P c cmp + i) \<and>
      update_P A M sus P W W_prev dt gv bs h (pp + i) =
        fst (update_P_c A M sus P W dt gv c cmp (h1, pp)) (pp + i) \<and>
      distinct ?own \<and>
      (\<forall>i \<in> set ?own. \<forall>j \<in> set ?own.
         P c cmp + i \<noteq> pp + j \<and> ?s + i \<noteq> P c cmp + j \<and> ?s + i \<noteq> pp + j \<and>
         W c cmp + i \<noteq> P c cmp + j \<and> W c cmp + i \<noteq> pp + j)"
  proof -
    have A1: "\<forall>a. a = P c cmp + i \<or> a = pp + i \<or> a = ?s + i \<or> a = W c cmp + i \<longrightarrow> h1 a = h a"
      using h1 by blast
    have A2: "update_P A M sus P W W_prev dt gv bs h (P c cmp + i) =
        fst (update_P_c A M sus P W dt gv c cmp (h1, pp)) (P c cmp + i)"
      unfolding run h2_def [symmetric] by (rule post) simp
    have A3: "update_P A M sus P W W_prev dt gv bs h (pp + i) =
        fst (update_P_c A M sus P W dt gv c cmp (h1, pp)) (pp + i)"
      unfolding run h2_def [symmetric] by (rule post) simp
    show ?thesis
      by (rule conjI [OF A1 conjI [OF A2 conjI [OF A3 conjI [OF own_d loc]]]])
  qed
  show ?thesis
    unfolding pp_def [symmetric] by (rule exI [where x = h1]) (rule all)
qed

lemma update_P_iso:
  assumes lay: "layout_ok M sus P W gv bs"
    and q: "(c, cmp) \<in> set (pairs M)"
    and p: "P c cmp \<noteq> NULL" and w: "W c cmp \<noteq> NULL"
    and s: "sigma sus c (component_direction M c) \<noteq> NULL"
    and off1: "W (direction_component M c (cycle_direction M (gv_dim gv) (component_direction M c) 1)) cmp = NULL
         \<or> sigma sus c (cycle_direction M (gv_dim gv) (component_direction M c) 1) = NULL"
    and off2: "W (direction_component M c (cycle_direction M (gv_dim gv) (component_direction M c) 2)) cmp = NULL
         \<or> sigma sus c (cycle_direction M (gv_dim gv) (component_direction M c) 2) = NULL"
    and i: "i \<in> set (LOOP_OVER_VOL_OWNED M gv c)"
  shows "update_P A M sus P W W_prev dt gv bs h (P c cmp + i) =
           point_iso A sus dt (P c cmp) (P_prev_at M P gv bs (c, cmp))
             (sigma sus c (component_direction M c)) (W c cmp) i h (P c cmp + i)
       \<and> update_P A M sus P W W_prev dt gv bs h (P_prev_at M P gv bs (c, cmp) + i) = h (P c cmp + i)
       \<and> P c cmp + i \<noteq> P_prev_at M P gv bs (c, cmp) + i"
proof -
  let ?own = "LOOP_OVER_VOL_OWNED M gv c"
  let ?s = "sigma sus c (component_direction M c)"
  let ?pp = "P_prev_at M P gv bs (c, cmp)"
  obtain h1 where h1: "\<And>a. a = P c cmp + i \<or> a = ?pp + i \<or> a = ?s + i \<or> a = W c cmp + i \<Longrightarrow> h1 a = h a"
    and up: "update_P A M sus P W W_prev dt gv bs h (P c cmp + i) =
        fst (update_P_c A M sus P W dt gv c cmp (h1, ?pp)) (P c cmp + i)"
      "update_P A M sus P W W_prev dt gv bs h (?pp + i) =
        fst (update_P_c A M sus P W dt gv c cmp (h1, ?pp)) (?pp + i)"
    and own_d: "distinct ?own"
    and loc: "\<forall>i \<in> set ?own. \<forall>j \<in> set ?own.
         P c cmp + i \<noteq> ?pp + j \<and> ?s + i \<noteq> P c cmp + j \<and> ?s + i \<noteq> ?pp + j \<and>
         W c cmp + i \<noteq> P c cmp + j \<and> W c cmp + i \<noteq> ?pp + j"
    using update_P_localise [OF lay q p w s i, where A = A and W_prev = W_prev and dt = dt and h = h]
    by blast
  define h2 where "h2 = fold (point_iso A sus dt (P c cmp) ?pp ?s (W c cmp)) ?own h1"
  have st2: "fst (update_P_c A M sus P W dt gv c cmp (h1, ?pp)) = h2"
    using update_P_c_iso [where P = P and W = W and c = c and cmp = cmp and sus = sus and M = M
        and gv = gv and A = A and dt = dt and h = h1 and cur = ?pp] p w s off1 off2
    by (simp add: h2_def)
  have h2: "h2 (P c cmp + i) = point_iso A sus dt (P c cmp) ?pp ?s (W c cmp) i h1 (P c cmp + i)"
    "h2 (?pp + i) = h1 (P c cmp + i)"
    unfolding h2_def using loop_iso [OF own_d loc i, of A sus dt h1] by simp_all
  have ne: "P c cmp + i \<noteq> ?pp + i" using loc i by blast
  have h2a: "h2 (P c cmp + i) = point_iso A sus dt (P c cmp) ?pp ?s (W c cmp) i h (P c cmp + i)"
    unfolding h2(1) by (intro point_iso_cong h1 ne) simp_all
  have h2b: "h2 (?pp + i) = h (P c cmp + i)"
    unfolding h2(2) by (intro h1) simp
  show ?thesis
    using up st2 h2a h2b ne by simp
qed

lemma loop_prev:
  fixes p pp :: addr and f :: "int \<Rightarrow> 'a mem \<Rightarrow> 'a mem"
  assumes store: "\<And>i h. f i h (pp + i) = h (p + i)"
    and frame: "\<And>i h a. a \<noteq> p + i \<Longrightarrow> a \<noteq> pp + i \<Longrightarrow> f i h a = h a"
    and "distinct ixs"
    and "\<forall>i \<in> set ixs. \<forall>j \<in> set ixs. p + i \<noteq> pp + j"
    and "i \<in> set ixs"
  shows "fold f ixs h (pp + i) = h (p + i)"
  using assms(3-5)
proof (induction ixs arbitrary: h)
  case Nil
  then show ?case by simp
next
  case (Cons j ixs)
  show ?case
  proof (cases "i = j")
    case True
    have nj: "j \<notin> set ixs" using Cons.prems(1) by simp
    have "\<forall>k \<in> set ixs. pp + j \<noteq> p + k \<and> pp + j \<noteq> pp + k"
    proof (intro ballI)
      fix k assume k: "k \<in> set ixs"
      have "p + k \<noteq> pp + j" using Cons.prems(2) k by simp
      then have a: "pp + j \<noteq> p + k" by (rule not_sym)
      have "j \<noteq> k" using k nj by auto
      then have b: "pp + j \<noteq> pp + k" by simp
      show "pp + j \<noteq> p + k \<and> pp + j \<noteq> pp + k" using a b by (rule conjI)
    qed
    then have "fold f ixs (f j h) (pp + j) = f j h (pp + j)"
      by (intro fold_frame [where f = f and p = p and pp = pp] frame)
    then show ?thesis using True store by simp
  next
    case False
    then have mem: "i \<in> set ixs" using Cons.prems(3) by simp
    have "fold f ixs (f j h) (pp + i) = f j h (p + i)"
      using Cons.prems mem by (intro Cons.IH) simp_all
    also have "f j h (p + i) = h (p + i)"
      using False Cons.prems(2) mem by (intro frame) simp_all
    finally show ?thesis by simp
  qed
qed

lemma update_P_c_stores_prev:
  assumes "P c cmp \<noteq> NULL" and "W c cmp \<noteq> NULL"
    and "sigma sus c (component_direction M c) \<noteq> NULL"
    and d: "distinct (LOOP_OVER_VOL_OWNED M gv c)"
    and ne: "\<forall>i \<in> set (LOOP_OVER_VOL_OWNED M gv c). \<forall>j \<in> set (LOOP_OVER_VOL_OWNED M gv c).
               P c cmp + i \<noteq> cur + j"
    and i: "i \<in> set (LOOP_OVER_VOL_OWNED M gv c)"
  shows "fst (update_P_c A M sus P W dt gv c cmp (h, cur)) (cur + i) = h (P c cmp + i)"
proof -
  obtain d1 c1 is1 w1 s1 d2 c2 is2 w2 s2 where
    od: "offdiag_directions M sus W gv c cmp = ((d1, c1, is1, w1, s1), (d2, c2, is2, w2, s2))"
    by (metis prod_cases5 surj_pair)
  let ?p = "P c cmp" and ?w = "W c cmp" and ?s = "sigma sus c (component_direction M c)"
  let ?is = "gv_stride gv (component_direction M c) * (if is_magnetic M c then - 1 else 1)"
  let ?own = "LOOP_OVER_VOL_OWNED M gv c"
  have iso: "fold (point_iso A sus dt ?p cur ?s ?w) ?own h (cur + i) = h (?p + i)"
    by (rule loop_prev [where f = "point_iso A sus dt ?p cur ?s ?w", OF _ _ d ne i])
      (simp_all add: point_iso_def Let_def)
  have two: "fold (point_2x2 A sus dt ?p cur ?s ?w s1 w1 is1 ?is) ?own h (cur + i) = h (?p + i)"
    by (rule loop_prev [where f = "point_2x2 A sus dt ?p cur ?s ?w s1 w1 is1 ?is", OF _ _ d ne i])
      (simp_all add: point_2x2_def Let_def)
  have three:
    "fold (point_3x3 A sus dt ?p cur ?s ?w s1 w1 is1 s2 w2 is2 ?is) ?own h (cur + i) = h (?p + i)"
    by (rule loop_prev
        [where f = "point_3x3 A sus dt ?p cur ?s ?w s1 w1 is1 s2 w2 is2 ?is", OF _ _ d ne i])
      (simp_all add: point_3x3_def Let_def)
  show ?thesis
    using assms(1-3) iso two three by (simp add: update_P_c_def Let_def od)
qed

lemma update_P_stores_prev:
  assumes lay: "layout_ok M sus P W gv bs"
    and q: "(c, cmp) \<in> set (pairs M)"
    and p: "P c cmp \<noteq> NULL" and w: "W c cmp \<noteq> NULL"
    and s: "sigma sus c (component_direction M c) \<noteq> NULL"
    and i: "i \<in> set (LOOP_OVER_VOL_OWNED M gv c)"
  shows "update_P A M sus P W W_prev dt gv bs h (P_prev_at M P gv bs (c, cmp) + i) = h (P c cmp + i)"
proof -
  let ?own = "LOOP_OVER_VOL_OWNED M gv c"
  let ?pp = "P_prev_at M P gv bs (c, cmp)"
  obtain h1 where h1: "h1 (P c cmp + i) = h (P c cmp + i)"
    and up: "update_P A M sus P W W_prev dt gv bs h (?pp + i) =
        fst (update_P_c A M sus P W dt gv c cmp (h1, ?pp)) (?pp + i)"
    and own_d: "distinct ?own"
    and loc: "\<forall>i \<in> set ?own. \<forall>j \<in> set ?own. P c cmp + i \<noteq> ?pp + j"
    using update_P_localise [OF lay q p w s i, where A = A and W_prev = W_prev and dt = dt and h = h]
    by blast
  show ?thesis
    unfolding up
    using update_P_c_stores_prev [where P = P and W = W and c = c and cmp = cmp and sus = sus
        and M = M and gv = gv and A = A and dt = dt and h = h1 and cur = ?pp and i = i]
      p w s own_d loc i h1
    by simp
qed

subsection \<open>The isotropic recurrence and the layout of the backing store\<close>

text \<open>
  On the real numbers, where multiplication is associative and commutative, the value the
  isotropic loop body stores is the recurrence in the specification's wording, with
  \<open>a = (\<Omega>\<cdot>dt)\<^sup>2\<close>.  In \<^verbatim>\<open>double\<close> the two agree up to rounding only.
\<close>

lemma g2pi_real: "g2pi real_arith sus = 2 * pi * gamma sus"
  by (simp add: g2pi_def real_arith_def)

lemma omega0dtsqr_real: "omega0dtsqr real_arith sus dt = (2 * pi * omega_0 sus * dt)\<^sup>2"
  by (simp add: omega0dtsqr_def omega2pi_def real_arith_def power2_eq_square)

lemma gamma1inv_real: "gamma1inv real_arith sus dt = 1 / (1 + 2 * pi * gamma sus * dt / 2)"
  by (simp add: gamma1inv_def g2pi_real) (simp add: real_arith_def)

lemma gamma1_real: "gamma1 real_arith sus dt = 1 - 2 * pi * gamma sus * dt / 2"
  by (simp add: gamma1_def g2pi_real) (simp add: real_arith_def)

lemma omega0dtsqr_denom_real:
  "omega0dtsqr_denom real_arith sus dt =
     (if no_omega_0_denominator sus then 0 else (2 * pi * omega_0 sus * dt)\<^sup>2)"
  by (simp add: omega0dtsqr_denom_def omega0dtsqr_real) (simp add: real_arith_def)

lemma point_iso_real:
  assumes "p + i \<noteq> pp + i"
  shows "point_iso real_arith sus dt p pp s w i h (p + i) =
     spec_recurrence (omega_0 sus) (gamma sus) (no_omega_0_denominator sus) dt
       (h (p + i)) (h (pp + i)) (h (s + i)) (h (w + i))"
proof -
  have "point_iso real_arith sus dt p pp s w i h (p + i) =
      gamma1inv real_arith sus dt *
        (h (p + i) * (2 - omega0dtsqr_denom real_arith sus dt)
           - gamma1 real_arith sus dt * h (pp + i)
           + omega0dtsqr real_arith sus dt * (h (s + i) * h (w + i)))"
    using assms by (simp add: point_iso_def Let_def) (simp add: real_arith_def)
  also have "\<dots> = spec_recurrence (omega_0 sus) (gamma sus) (no_omega_0_denominator sus) dt
       (h (p + i)) (h (pp + i)) (h (s + i)) (h (w + i))"
    unfolding gamma1inv_real gamma1_real omega0dtsqr_real omega0dtsqr_denom_real
      spec_recurrence_def Let_def
    by (simp add: mult.assoc)
  finally show ?thesis .
qed

lemma x_pairs: "pairs x_meep = [(E_x, 0), (E_x, 1), (E_y, 0), (E_y, 1), (E_z, 0), (E_z, 1),
   (H_x, 0), (H_x, 1), (H_y, 0), (H_y, 1), (H_z, 0), (H_z, 1)]"
  by (simp add: pairs_def x_meep_def DOCMP2_def)

lemma x_active: "filter (active x_P) (pairs x_meep) = [(E_x, 0), (E_x, 1)]"
  by (simp add: x_pairs active_def x_P_def NULL_def)

lemma x_layout: "layout_ok x_meep x_sus x_P x_W x_gv 400"
  unfolding layout_ok_def Let_def x_active
  by (simp add: x_meep_def x_sus_def x_P_def x_W_def x_gv_def sep_def NULL_def)

lemma pairs_mem: "c \<in> set (FOR_COMPONENTS M) \<Longrightarrow> cmp < 2 \<Longrightarrow> (c, cmp) \<in> set (pairs M)"
  by (auto simp: pairs_def DOCMP2_def)

text \<open>
  C1.  Let the arrays be laid out apart and allocated (\<open>layout_ok\<close>), and let \<open>(c, cmp)\<close> be
  a pair with \<^verbatim>\<open>P[c][cmp]\<close>, \<^verbatim>\<open>W[c][cmp]\<close> and the diagonal coupling array all non-null
  and with no off-diagonal coupling available in either of the two other directions.  Then
  one call of \<^verbatim>\<open>update_P\<close>, in whatever arithmetic the operations are computed, leaves at
  every owned point \<open>i\<close> in \<^verbatim>\<open>P[c][cmp][i]\<close> the value
  \<open>b_inv \<cdot> (p_cur \<cdot> (2 - a_denom) - b \<cdot> p_prev + a \<cdot> (\<sigma>_diag[i] \<cdot> w[i]))\<close> of the old values
  \<open>p_cur = P[c][cmp][i]\<close>, \<open>p_prev\<close> = the pair's backing-store cell \<open>i\<close>, \<open>\<sigma>_diag[i]\<close> and
  \<open>w[i]\<close>, and leaves in the backing-store cell the old \<open>p_cur\<close>.  Every operation is the
  one the code performs, in the code's grouping: \<open>\<Omega> = (2 \<cdot> \<pi>) \<cdot> f0\<close>, \<open>\<Gamma> = (\<gamma> \<cdot> 2) \<cdot> \<pi>\<close>,
  \<open>a = ((\<Omega> \<cdot> \<Omega>) \<cdot> dt) \<cdot> dt\<close>, \<open>b_inv = 1 / (1 + (\<Gamma> \<cdot> dt) / 2)\<close>, \<open>b = 1 - (\<Gamma> \<cdot> dt) / 2\<close>, and
  \<open>a_denom\<close> is 0 when the flag is set and \<open>a\<close> otherwise.  The coefficient of the driving
  term is \<open>a\<close> whether the flag is set or not.
\<close>

theorem update_P_isotropic:
  assumes "layout_ok M sus P W gv P_internal_data"
    and "c \<in> set (FOR_COMPONENTS M)" and "cmp < 2"
    and "P c cmp \<noteq> NULL" and "W c cmp \<noteq> NULL"
    and "sigma sus c (component_direction M c) \<noteq> NULL"
    and "W (direction_component M c (cycle_direction M (gv_dim gv) (component_direction M c) 1)) cmp = NULL
         \<or> sigma sus c (cycle_direction M (gv_dim gv) (component_direction M c) 1) = NULL"
    and "W (direction_component M c (cycle_direction M (gv_dim gv) (component_direction M c) 2)) cmp = NULL
         \<or> sigma sus c (cycle_direction M (gv_dim gv) (component_direction M c) 2) = NULL"
    and "i \<in> set (LOOP_OVER_VOL_OWNED M gv c)"
  shows "let Omega = f_mul A (f_mul A (f_2 A) (f_pi A)) (omega_0 sus);
             Gamma = f_mul A (f_mul A (gamma sus) (f_2 A)) (f_pi A);
             a = f_mul A (f_mul A (f_mul A Omega Omega) dt) dt;
             a_denom = (if no_omega_0_denominator sus then f_0 A else a);
             b_inv = f_div A (f_1 A) (f_add A (f_1 A) (f_div A (f_mul A Gamma dt) (f_2 A)));
             b = f_sub A (f_1 A) (f_div A (f_mul A Gamma dt) (f_2 A));
             p_cur = h (P c cmp + i);
             p_prev = h (P_prev_at M P gv P_internal_data (c, cmp) + i);
             sigma_diag = h (sigma sus c (component_direction M c) + i);
             w = h (W c cmp + i)
         in update_P A M sus P W W_prev dt gv P_internal_data h (P c cmp + i) =
              f_mul A b_inv
                (f_add A
                   (f_sub A (f_mul A p_cur (f_sub A (f_2 A) a_denom)) (f_mul A b p_prev))
                   (f_mul A a (f_mul A sigma_diag w)))
          \<and> update_P A M sus P W W_prev dt gv P_internal_data h
              (P_prev_at M P gv P_internal_data (c, cmp) + i) = p_cur"
proof -
  have q: "(c, cmp) \<in> set (pairs M)"
    using assms(2,3) by (rule pairs_mem)
  note iso = update_P_iso [where A = A and W_prev = W_prev and dt = dt and h = h,
      OF assms(1) q assms(4-9)]
  show ?thesis
    using iso
    by (simp add: point_iso_def Let_def omega0dtsqr_denom_def omega0dtsqr_def omega2pi_def
        gamma1inv_def gamma1_def g2pi_def)
qed

lemma x_P_prev_at: "P_prev_at x_meep x_P x_gv 400 (E_x, 0) = 400"
  by (simp add: P_prev_at_def x_pairs)

theorem update_P_isotropic_witness:
  "layout_ok x_meep x_sus x_P x_W x_gv 400 \<and>
   update_P real_arith x_meep x_sus x_P x_W x_W (1 / 2) x_gv 400 x_mem 301 = 201 + 20000 * pi\<^sup>2 \<and>
   update_P real_arith x_meep x_sus x_P x_W x_W (1 / 2) x_gv 400 x_mem 401 = 301"
proof -
  have "let Omega = f_mul real_arith (f_mul real_arith (f_2 real_arith) (f_pi real_arith)) (omega_0 x_sus);
            Gamma = f_mul real_arith (f_mul real_arith (gamma x_sus) (f_2 real_arith)) (f_pi real_arith);
            a = f_mul real_arith (f_mul real_arith (f_mul real_arith Omega Omega) (1 / 2)) (1 / 2);
            a_denom = (if no_omega_0_denominator x_sus then f_0 real_arith else a);
            b_inv = f_div real_arith (f_1 real_arith)
                      (f_add real_arith (f_1 real_arith)
                         (f_div real_arith (f_mul real_arith Gamma (1 / 2)) (f_2 real_arith)));
            b = f_sub real_arith (f_1 real_arith)
                  (f_div real_arith (f_mul real_arith Gamma (1 / 2)) (f_2 real_arith));
            p_cur = x_mem (x_P E_x 0 + 1);
            p_prev = x_mem (P_prev_at x_meep x_P x_gv 400 (E_x, 0) + 1);
            sigma_diag = x_mem (sigma x_sus E_x (component_direction x_meep E_x) + 1);
            w = x_mem (x_W E_x 0 + 1)
        in update_P real_arith x_meep x_sus x_P x_W x_W (1 / 2) x_gv 400 x_mem (x_P E_x 0 + 1) =
             f_mul real_arith b_inv
               (f_add real_arith
                  (f_sub real_arith (f_mul real_arith p_cur (f_sub real_arith (f_2 real_arith) a_denom))
                     (f_mul real_arith b p_prev))
                  (f_mul real_arith a (f_mul real_arith sigma_diag w)))
         \<and> update_P real_arith x_meep x_sus x_P x_W x_W (1 / 2) x_gv 400 x_mem
             (P_prev_at x_meep x_P x_gv 400 (E_x, 0) + 1) = p_cur"
    by (rule update_P_isotropic [OF x_layout])
      (simp_all add: x_meep_def x_sus_def x_P_def x_W_def x_gv_def NULL_def)
  then show ?thesis
    using x_layout
    by (simp add: x_P_prev_at Let_def)
      (simp add: x_meep_def x_sus_def x_P_def x_W_def x_mem_def real_arith_def power2_eq_square
        algebra_simps)
qed

text \<open>
  C5, as the code has it.  With \<open>K = gv.ntot()\<close>, the number of grid points of the volume
  whether owned or not, and \<open>M\<close> active pairs, \<open>K \<times> M\<close> being representable as an \<^verbatim>\<open>int\<close>:
  \<^verbatim>\<open>num_internal_data\<close> returns \<open>K \<times> M\<close>; the cursor of \<^verbatim>\<open>update_P\<close> ends \<open>K \<times> M\<close> cells
  after \<^verbatim>\<open>P_internal_data\<close>; when the loop reaches a pair, in the same order of
  \<^verbatim>\<open>FOR_COMPONENTS\<close> and \<^verbatim>\<open>DOCMP2\<close>, the cursor stands \<open>K\<close> cells further for every active
  pair before it, so that the active pairs are given consecutive blocks of \<open>K\<close> cells; and,
  the arrays being laid out apart, the call leaves the previous-step values of a pair that
  is updated in the pair's own block: for every owned point \<open>i\<close>, which lies within
  \<open>0 \<le> i < K\<close>, cell \<open>i\<close> of the block holds what \<^verbatim>\<open>P[c][cmp][i]\<close> held before the call.
\<close>

theorem num_internal_data_matches_cursor:
  assumes "0 \<le> gv_ntot gv" and "gv_ntot gv * num_active M P \<le> INT_MAX"
  shows "num_internal_data M P gv = Some (gv_ntot gv * num_active M P)
       \<and> snd (update_P_run A M sus P W W_prev dt gv P_internal_data h) =
           P_internal_data + gv_ntot gv * num_active M P
       \<and> (\<forall>pre q post. pairs M = pre @ q # post \<longrightarrow>
            snd (fold (\<lambda>q. update_P_c A M sus P W dt gv (fst q) (snd q)) pre (h, P_internal_data)) =
              P_internal_data + gv_ntot gv * int (length (filter (active P) pre)))
       \<and> (layout_ok M sus P W gv P_internal_data \<longrightarrow>
            (\<forall>pre c cmp post.
               pairs M = pre @ (c, cmp) # post \<and> P c cmp \<noteq> NULL \<and> W c cmp \<noteq> NULL \<and>
               sigma sus c (component_direction M c) \<noteq> NULL \<longrightarrow>
               (\<forall>i \<in> set (LOOP_OVER_VOL_OWNED M gv c).
                  0 \<le> i \<and> i < gv_ntot gv \<and>
                  update_P A M sus P W W_prev dt gv P_internal_data h
                    (P_internal_data + gv_ntot gv * int (length (filter (active P) pre)) + i) =
                  h (P c cmp + i))))"
proof -
  have num: "num_internal_data M P gv =
      Some (0 + gv_ntot gv * int (length (filter (active P) (pairs M))))"
    unfolding num_internal_data_pairs
    using assms by (intro num_fold) (simp_all add: num_active_def)
  have 1: "num_internal_data M P gv = Some (gv_ntot gv * num_active M P)"
    using num by (simp add: num_active_def)
  have 2: "snd (update_P_run A M sus P W W_prev dt gv P_internal_data h) =
      P_internal_data + gv_ntot gv * num_active M P"
    by (simp add: num_active_def update_P_run_pairs cursor_fold)
  have 3: "\<forall>pre q post. pairs M = pre @ q # post \<longrightarrow>
      snd (fold (\<lambda>q. update_P_c A M sus P W dt gv (fst q) (snd q)) pre (h, P_internal_data)) =
        P_internal_data + gv_ntot gv * int (length (filter (active P) pre))"
    by (simp add: cursor_fold)
  have 4: "layout_ok M sus P W gv P_internal_data \<longrightarrow>
      (\<forall>pre c cmp post.
         pairs M = pre @ (c, cmp) # post \<and> P c cmp \<noteq> NULL \<and> W c cmp \<noteq> NULL \<and>
         sigma sus c (component_direction M c) \<noteq> NULL \<longrightarrow>
         (\<forall>i \<in> set (LOOP_OVER_VOL_OWNED M gv c).
            0 \<le> i \<and> i < gv_ntot gv \<and>
            update_P A M sus P W W_prev dt gv P_internal_data h
              (P_internal_data + gv_ntot gv * int (length (filter (active P) pre)) + i) =
            h (P c cmp + i)))"
  proof (intro impI allI ballI)
    fix pre c cmp post i
    assume lay: "layout_ok M sus P W gv P_internal_data"
      and H: "pairs M = pre @ (c, cmp) # post \<and> P c cmp \<noteq> NULL \<and> W c cmp \<noteq> NULL \<and>
         sigma sus c (component_direction M c) \<noteq> NULL"
      and i: "i \<in> set (LOOP_OVER_VOL_OWNED M gv c)"
    have split: "pairs M = pre @ (c, cmp) # post" and p: "P c cmp \<noteq> NULL"
      and w: "W c cmp \<noteq> NULL" and s: "sigma sus c (component_direction M c) \<noteq> NULL"
      using H by simp_all
    have dist: "distinct (pairs M)"
      using lay by (simp add: layout_ok_def Let_def distinct_pairs)
    have npre: "(c, cmp) \<notin> set pre"
      using dist split by auto
    have q: "(c, cmp) \<in> set (pairs M)"
      using split by simp
    have qin: "(c, cmp) \<in> set (filter (active P) (pairs M))"
      using q p by (simp add: active_def)
    have rng: "0 \<le> i \<and> i < gv_ntot gv"
      using layout_ok_D(2) [OF lay qin] i by simp
    have at: "P_prev_at M P gv P_internal_data (c, cmp) =
        P_internal_data + gv_ntot gv * int (length (filter (active P) pre))"
      by (rule P_prev_at_split [OF split npre])
    have "update_P A M sus P W W_prev dt gv P_internal_data h
        (P_prev_at M P gv P_internal_data (c, cmp) + i) = h (P c cmp + i)"
      by (rule update_P_stores_prev [OF lay q p w s i])
    then show "0 \<le> i \<and> i < gv_ntot gv \<and>
        update_P A M sus P W W_prev dt gv P_internal_data h
          (P_internal_data + gv_ntot gv * int (length (filter (active P) pre)) + i) =
        h (P c cmp + i)"
      using rng by (simp add: at)
  qed
  show ?thesis
    by (rule conjI [OF 1 conjI [OF 2 conjI [OF 3 4]]])
qed

lemma x_pairs_split:
  "pairs x_meep = [] @ (E_x, 0) # [(E_x, 1), (E_y, 0), (E_y, 1), (E_z, 0), (E_z, 1),
     (H_x, 0), (H_x, 1), (H_y, 0), (H_y, 1), (H_z, 0), (H_z, 1)]"
  by (simp add: x_pairs)

theorem num_internal_data_matches_cursor_witness:
  "num_internal_data x_meep x_P x_gv = Some 8 \<and>
   snd (update_P_run real_arith x_meep x_sus x_P x_W x_W 1 x_gv 400 x_mem) = 408 \<and>
   layout_ok x_meep x_sus x_P x_W x_gv 400 \<and>
   update_P real_arith x_meep x_sus x_P x_W x_W 1 x_gv 400 x_mem 401 = 301"
proof -
  have hyp: "0 \<le> gv_ntot x_gv" "gv_ntot x_gv * num_active x_meep x_P \<le> INT_MAX"
    by (simp_all add: num_active_def x_active x_gv_def INT_MAX_def)
  note T = num_internal_data_matches_cursor
    [of x_gv x_meep x_P real_arith x_sus x_W x_W 1 400 x_mem, OF hyp]
  have 1: "num_internal_data x_meep x_P x_gv = Some 8"
    using T [THEN conjunct1] by (simp add: num_active_def x_active) (simp add: x_gv_def)
  have 2: "snd (update_P_run real_arith x_meep x_sus x_P x_W x_W 1 x_gv 400 x_mem) = 408"
    using T [THEN conjunct2, THEN conjunct1]
    by (simp add: num_active_def x_active) (simp add: x_gv_def)
  have "0 \<le> (1::int) \<and> 1 < gv_ntot x_gv \<and>
      update_P real_arith x_meep x_sus x_P x_W x_W 1 x_gv 400 x_mem
        (400 + gv_ntot x_gv * int (length (filter (active x_P) [])) + 1) = x_mem (x_P E_x 0 + 1)"
    by (rule T [THEN conjunct2, THEN conjunct2, THEN conjunct2, rule_format,
          OF x_layout conjI [OF x_pairs_split]])
      (simp_all add: x_meep_def x_sus_def x_P_def x_W_def NULL_def)
  then have 4: "update_P real_arith x_meep x_sus x_P x_W x_W 1 x_gv 400 x_mem 401 = 301"
    by (simp add: x_P_def x_mem_def)
  show ?thesis
    using 1 2 x_layout 4 by simp
qed

text \<open>
  The claim counts \<open>K\<close> as the number of owned grid points.  On a volume of four points
  that owns two of them, with two active pairs, \<^verbatim>\<open>num_internal_data\<close> returns 8 and the
  cursor of \<^verbatim>\<open>update_P\<close> ends 8 cells after the start of the backing store, not \<open>2 \<times> 2\<close>.
\<close>

theorem num_internal_data_owned_counterexample:
  "gv_ntot x_gv = 4 \<and>
   length (LOOP_OVER_VOL_OWNED x_meep_half x_gv E_x) = 2 \<and>
   num_active x_meep_half x_P = 2 \<and>
   num_internal_data x_meep_half x_P x_gv = Some 8 \<and>
   num_internal_data x_meep_half x_P x_gv \<noteq> Some (2 * 2) \<and>
   snd (update_P_run real_arith x_meep_half x_sus x_P x_W x_W 1 x_gv 400 x_mem) = 408"
proof -
  have prs: "pairs x_meep_half = pairs x_meep"
    by (simp add: pairs_def x_meep_half_def)
  have act: "filter (active x_P) (pairs x_meep_half) = [(E_x, 0), (E_x, 1)]"
    by (simp add: prs x_active)
  have num: "num_internal_data x_meep_half x_P x_gv = Some 8"
    by (simp add: num_internal_data_def num_add_def x_meep_half_def x_meep_def x_P_def x_gv_def
        DOCMP2_def NULL_def INT_MAX_def INT_MIN_def)
  have cur: "snd (update_P_run real_arith x_meep_half x_sus x_P x_W x_W 1 x_gv 400 x_mem) = 408"
    by (simp add: update_P_run_pairs cursor_fold act) (simp add: x_gv_def)
  show ?thesis
    using num cur by (simp add: num_active_def act) (simp add: x_meep_half_def x_gv_def)
qed

subsection \<open>The off-diagonal average\<close>

lemma point_2x2_expand:
  "point_2x2 A sus dt p pp s w s1 w1 is1 is =
     (\<lambda>i h. (h(p + i :=
            f_mul A (gamma1inv A sus dt)
              (f_add A
                 (f_sub A
                    (f_mul A (h (p + i)) (f_sub A (f_2 A) (omega0dtsqr_denom A sus dt)))
                    (f_mul A (gamma1 A sus dt) (h (pp + i))))
                 (f_mul A (omega0dtsqr A sus dt)
                    (f_add A (f_mul A (h (s + i)) (h (w + i)))
                       (f_mul A (f_quarter A)
                          (f_add A
                             (f_mul A (f_add A (h (w1 + i)) (h (w1 + (i - is1)))) (h (s1 + i)))
                             (f_mul A (f_add A (h (w1 + (i + is))) (h (w1 + ((i + is) - is1))))
                                (h (s1 + (i + is)))))))))))
       (pp + i := h (p + i)))"
  by (intro ext) (simp add: point_2x2_def OFFDIAG_def Let_def)

lemma point_3x3_expand:
  "point_3x3 A sus dt p pp s w s1 w1 is1 s2 w2 is2 is =
     (\<lambda>i h. (h(p + i :=
            f_mul A (gamma1inv A sus dt)
              (f_add A
                 (f_sub A
                    (f_mul A (h (p + i)) (f_sub A (f_2 A) (omega0dtsqr_denom A sus dt)))
                    (f_mul A (gamma1 A sus dt) (h (pp + i))))
                 (f_mul A (omega0dtsqr A sus dt)
                    (f_add A
                       (f_add A (f_mul A (h (s + i)) (h (w + i)))
                          (f_mul A (f_quarter A)
                             (f_add A
                                (f_mul A (f_add A (h (w1 + i)) (h (w1 + (i - is1)))) (h (s1 + i)))
                                (f_mul A (f_add A (h (w1 + (i + is))) (h (w1 + ((i + is) - is1))))
                                   (h (s1 + (i + is)))))))
                       (f_mul A (f_quarter A)
                          (f_add A
                             (f_mul A (f_add A (h (w2 + i)) (h (w2 + (i - is2)))) (h (s2 + i)))
                             (f_mul A (f_add A (h (w2 + (i + is))) (h (w2 + ((i + is) - is2))))
                                (h (s2 + (i + is)))))))))))
       (pp + i := h (p + i)))"
  by (intro ext) (simp add: point_3x3_def OFFDIAG_def Let_def)

text \<open>
  C2, as the code has it.  Take a pair \<open>(c, cmp)\<close> that \<^verbatim>\<open>update_P\<close> updates
  (\<^verbatim>\<open>P[c][cmp]\<close>, \<^verbatim>\<open>W[c][cmp]\<close> and the diagonal coupling array non-null), with own axis
  \<open>d\<close>, candidate directions \<open>d1\<close> and \<open>d2\<close>, their components \<open>c1\<close> and \<open>c2\<close>, and every
  stride \<^verbatim>\<open>gv.stride\<close> times \<open>-1\<close> for a magnetic component and times \<open>+1\<close> otherwise.
  A candidate is available when its field array \<^verbatim>\<open>W[c_k][cmp]\<close> and its coupling array
  \<^verbatim>\<open>sigma[c][d_k]\<close> are both non-null.  With
  \<open>offdiag \<sigma>_off w_off stride_off\<close> at point \<open>i\<close> standing for, in this grouping and for every
  arithmetic,
  \<open>0.25 \<cdot> ((w_off[i] + w_off[i-stride_off]) \<cdot> \<sigma>_off[i]
     + (w_off[i+stride_own] + w_off[(i+stride_own)-stride_off]) \<cdot> \<sigma>_off[i+stride_own])\<close>,
  where \<open>stride_own\<close> is the stride of the own axis \<open>d\<close>, the body of \<^verbatim>\<open>update_P\<close> for the
  pair runs over the owned points, and at each point it assigns to \<^verbatim>\<open>p[i]\<close> the recurrence
  whose driving term is the sum of \<open>\<sigma>_diag[i] \<cdot> w[i]\<close> and

  \<^item> both candidates available: first \<open>offdiag (sigma[c][d1]) (W[c1][cmp]) stride1\<close>, then
    \<open>offdiag (sigma[c][d2]) (W[c2][cmp]) stride2\<close>;
  \<^item> the first alone: \<open>offdiag (sigma[c][d1]) (W[c1][cmp]) stride1\<close>;
  \<^item> the second alone: \<open>offdiag (sigma[c][d2]) (W[c2][cmp]) stride2\<close>.

  So the sums are over the off-diagonal field, the factors are the off-diagonal coupling,
  the shift inside a sum is by the stride of the off-diagonal direction and the shift between
  the two sums is by the stride of the own axis.
\<close>

theorem update_P_c_offdiag:
  assumes "P c cmp \<noteq> NULL" and "W c cmp \<noteq> NULL"
    and "sigma sus c (component_direction M c) \<noteq> NULL"
  shows "let d = component_direction M c;
             sgn = (if is_magnetic M c then - 1 else 1);
             stride_own = gv_stride gv d * sgn;
             d1 = cycle_direction M (gv_dim gv) d 1;
             d2 = cycle_direction M (gv_dim gv) d 2;
             c1 = direction_component M c d1;
             c2 = direction_component M c d2;
             stride1 = gv_stride gv d1 * sgn;
             stride2 = gv_stride gv d2 * sgn;
             avail1 = (W c1 cmp \<noteq> NULL \<and> sigma sus c d1 \<noteq> NULL);
             avail2 = (W c2 cmp \<noteq> NULL \<and> sigma sus c d2 \<noteq> NULL);
             p = P c cmp;
             w = W c cmp;
             s = sigma sus c d;
             offdiag = (\<lambda>sigma_off w_off stride_off i h.
               f_mul A (f_quarter A)
                 (f_add A
                    (f_mul A (f_add A (h (w_off + i)) (h (w_off + (i - stride_off))))
                       (h (sigma_off + i)))
                    (f_mul A
                       (f_add A (h (w_off + (i + stride_own)))
                          (h (w_off + ((i + stride_own) - stride_off))))
                       (h (sigma_off + (i + stride_own))))));
             store = (\<lambda>drive i h.
               (h(p + i :=
                  f_mul A (gamma1inv A sus dt)
                    (f_add A
                       (f_sub A
                          (f_mul A (h (p + i)) (f_sub A (f_2 A) (omega0dtsqr_denom A sus dt)))
                          (f_mul A (gamma1 A sus dt) (h (pp + i))))
                       (f_mul A (omega0dtsqr A sus dt) (drive i h)))))
               (pp + i := h (p + i)))
         in (avail1 \<and> avail2 \<longrightarrow>
               update_P_c A M sus P W dt gv c cmp (h, pp) =
                 (fold (store (\<lambda>i h.
                     f_add A
                       (f_add A (f_mul A (h (s + i)) (h (w + i)))
                          (offdiag (sigma sus c d1) (W c1 cmp) stride1 i h))
                       (offdiag (sigma sus c d2) (W c2 cmp) stride2 i h)))
                    (LOOP_OVER_VOL_OWNED M gv c) h,
                  pp + gv_ntot gv))
          \<and> (avail1 \<and> \<not> avail2 \<longrightarrow>
               update_P_c A M sus P W dt gv c cmp (h, pp) =
                 (fold (store (\<lambda>i h.
                     f_add A (f_mul A (h (s + i)) (h (w + i)))
                       (offdiag (sigma sus c d1) (W c1 cmp) stride1 i h)))
                    (LOOP_OVER_VOL_OWNED M gv c) h,
                  pp + gv_ntot gv))
          \<and> (\<not> avail1 \<and> avail2 \<longrightarrow>
               update_P_c A M sus P W dt gv c cmp (h, pp) =
                 (fold (store (\<lambda>i h.
                     f_add A (f_mul A (h (s + i)) (h (w + i)))
                       (offdiag (sigma sus c d2) (W c2 cmp) stride2 i h)))
                    (LOOP_OVER_VOL_OWNED M gv c) h,
                  pp + gv_ntot gv))"
  using assms
  by (simp add: update_P_c_def offdiag_directions_def Let_def point_2x2_expand point_3x3_expand)

text \<open>
  At \<open>E_x\<close> with the field set \<open>x_W2\<close> only the second candidate, the direction \<open>Z\<close>, is
  available: \<open>\<sigma>_off\<close> is the coupling array at 120, \<open>w_off\<close> the field array of \<open>E_z\<close> at 220,
  \<open>stride_off = 1\<close> and \<open>stride_own = 2\<close>.  At \<open>i = 0\<close> the off-diagonal contribution is
  \<open>0.25 \<cdot> ((220 + 219) \<cdot> 120 + (222 + 221) \<cdot> 122) = 26681.5\<close>.
\<close>

lemma x_sigma: "sigma x_sus E_x X_dir = 100" "sigma x_sus E_x Y_dir = 110" "sigma x_sus E_x Z_dir = 120"
  by (simp_all add: x_sus_def)

lemma x_constants:
  "omega0dtsqr real_arith x_sus (1 / 2) = pi * pi"
  "omega0dtsqr_denom real_arith x_sus (1 / 2) = pi * pi"
  "gamma1inv real_arith x_sus (1 / 2) = 1" "gamma1 real_arith x_sus (1 / 2) = 1"
  by (simp_all add: omega0dtsqr_denom_def omega0dtsqr_def omega2pi_def gamma1inv_def gamma1_def
      g2pi_def real_arith_def x_sus_def)

lemma real_arith_ops:
  "f_add real_arith = (+)" "f_sub real_arith = (-)" "f_mul real_arith = (*)"
  "f_quarter real_arith = 1 / 4" "f_2 real_arith = 2"
  by (simp_all add: real_arith_def)

lemma x_meep_E_x:
  "component_direction x_meep E_x = X_dir" "is_magnetic x_meep E_x = False"
  "cycle_direction x_meep u X_dir 1 = Y_dir" "cycle_direction x_meep u X_dir 2 = Z_dir"
  "direction_component x_meep E_x Y_dir = E_y" "direction_component x_meep E_x Z_dir = E_z"
  "LOOP_OVER_VOL_OWNED x_meep x_gv E_x = [0, 1, 2, 3]"
  "gv_stride x_gv X_dir = 2" "gv_stride x_gv Y_dir = 1" "gv_stride x_gv Z_dir = 1"
  "gv_ntot x_gv = 4"
  by (simp_all add: x_meep_def x_gv_def)

lemma x_P_W2: "x_P E_x 0 = 300" "x_W2 E_x 0 = 200" "x_W2 E_y 0 = NULL" "x_W2 E_z 0 = 220"
  by (simp_all add: x_P_def x_W2_def)

text \<open>
  At \<open>E_x\<close> with the field set \<open>x_W2\<close> only the second candidate, the direction \<open>Z\<close>, is
  available: \<open>\<sigma>_off\<close> is the coupling array at 120, \<open>w_off\<close> the field array of \<open>E_z\<close> at 220,
  \<open>stride_off = 1\<close> and \<open>stride_own = 2\<close>.  With \<open>dt = 1/2\<close> the constants are \<open>a = \<pi>\<cdot>\<pi>\<close> and
  \<open>b_inv = b = 1\<close>; at \<open>i = 0\<close> the off-diagonal contribution is
  \<open>0.25 \<cdot> ((220 + 219) \<cdot> 120 + (222 + 221) \<cdot> 122) = 26681.5\<close>.
\<close>

theorem update_P_c_offdiag_witness:
  "update_P_c real_arith x_meep x_sus x_P x_W2 (1 / 2) x_gv E_x 0 (x_mem, 400) =
     (fold (\<lambda>i h. (h(300 + i :=
           1 * (h (300 + i) * (2 - pi * pi) - 1 * h (400 + i) +
             pi * pi * (h (100 + i) * h (200 + i) +
               1 / 4 * ((h (220 + i) + h (220 + (i - 1))) * h (120 + i) +
                        (h (220 + (i + 2)) + h (220 + ((i + 2) - 1))) * h (120 + (i + 2)))))))
         (400 + i := h (300 + i))) [0, 1, 2, 3] x_mem, 404)
   \<and> fst (update_P_c real_arith x_meep x_sus x_P x_W2 (1 / 2) x_gv E_x 0 (x_mem, 400)) 300 =
       300 * (2 - pi * pi) - 400 + pi * pi * (100 * 200 + 53363 / 2)"
proof -
  have run: "update_P_c real_arith x_meep x_sus x_P x_W2 (1 / 2) x_gv E_x 0 (x_mem, 400) =
     (fold (\<lambda>i h. (h(300 + i :=
           1 * (h (300 + i) * (2 - pi * pi) - 1 * h (400 + i) +
             pi * pi * (h (100 + i) * h (200 + i) +
               1 / 4 * ((h (220 + i) + h (220 + (i - 1))) * h (120 + i) +
                        (h (220 + (i + 2)) + h (220 + ((i + 2) - 1))) * h (120 + (i + 2)))))))
         (400 + i := h (300 + i))) [0, 1, 2, 3] x_mem, 404)"
    using update_P_c_offdiag [where P = x_P and c = E_x and cmp = 0 and W = x_W2 and sus = x_sus
        and M = x_meep and gv = x_gv and A = real_arith and dt = "1 / 2" and h = x_mem and pp = 400]
    by (simp add: Let_def x_meep_E_x x_sigma x_P_W2 x_constants real_arith_ops NULL_def
        del: fold.simps)
  have val: "fst (update_P_c real_arith x_meep x_sus x_P x_W2 (1 / 2) x_gv E_x 0 (x_mem, 400)) 300 =
       300 * (2 - pi * pi) - 400 + pi * pi * (100 * 200 + 53363 / 2)"
    unfolding run by (simp add: x_mem_def algebra_simps)
  show ?thesis
    by (rule conjI [OF run val])
qed

text \<open>
  The formula of the specification's wording gives another value: on a memory that holds the
  number \<open>a\<close> in cell \<open>a\<close>, with the coupling array at 110, the field array at 210,
  \<open>stride_off = 1\<close>, \<open>stride_own = 2\<close> and \<open>i = 2\<close>, the code computes 24013.5 and the
  specification's formula 23694.
\<close>

theorem offdiag_spec_counterexample:
  "OFFDIAG real_arith x_mem 2 110 210 1 2 = 48027 / 2 \<and>
   offdiag_spec real_arith x_mem 2 110 210 1 2 = 23694 \<and>
   OFFDIAG real_arith x_mem 2 110 210 1 2 \<noteq> offdiag_spec real_arith x_mem 2 110 210 1 2"
  by (simp add: OFFDIAG_def offdiag_spec_def real_arith_def x_mem_def)

subsection \<open>The choice of the branch\<close>

text \<open>
  C7.  For a pair with \<^verbatim>\<open>P[c][cmp]\<close>, \<^verbatim>\<open>W[c][cmp]\<close> and the diagonal coupling array
  non-null, the iteration is one of the three point loops, chosen before the loop from the
  two candidate directions \<open>d1\<close>, \<open>d2\<close> (the next and the next but one after the own axis):
  a candidate is available when its field array and its coupling array are both non-null.
  Both available: the 3-term loop; exactly one: the 2-term loop with that one (the second
  candidate takes the first place, with its direction, component, stride, field pointer and
  coupling pointer, when it alone is available); none: the isotropic loop.  The stride of
  the own axis and the strides of both candidates are \<^verbatim>\<open>gv.stride\<close> times \<open>-1\<close> for a
  magnetic component and times \<open>+1\<close> otherwise.
\<close>

theorem update_P_c_branches:
  assumes "P c cmp \<noteq> NULL" and "W c cmp \<noteq> NULL"
    and "sigma sus c (component_direction M c) \<noteq> NULL"
  shows
   "(let d = component_direction M c;
         sgn = (if is_magnetic M c then - 1 else 1);
         stride_own = gv_stride gv d * sgn;
         d1 = cycle_direction M (gv_dim gv) d 1;
         d2 = cycle_direction M (gv_dim gv) d 2;
         c1 = direction_component M c d1;
         c2 = direction_component M c d2;
         stride1 = gv_stride gv d1 * sgn;
         stride2 = gv_stride gv d2 * sgn;
         avail1 = (W c1 cmp \<noteq> NULL \<and> sigma sus c d1 \<noteq> NULL);
         avail2 = (W c2 cmp \<noteq> NULL \<and> sigma sus c d2 \<noteq> NULL);
         p = P c cmp; w = W c cmp; s = sigma sus c d;
         owned = LOOP_OVER_VOL_OWNED M gv c
     in update_P_c A M sus P W dt gv c cmp (h, P_prev) =
          ((if avail1 \<and> avail2 then
              fold (point_3x3 A sus dt p P_prev s w (sigma sus c d1) (W c1 cmp) stride1
                      (sigma sus c d2) (W c2 cmp) stride2 stride_own) owned h
            else if avail1 then
              fold (point_2x2 A sus dt p P_prev s w (sigma sus c d1) (W c1 cmp) stride1 stride_own)
                owned h
            else if avail2 then
              fold (point_2x2 A sus dt p P_prev s w (sigma sus c d2) (W c2 cmp) stride2 stride_own)
                owned h
            else fold (point_iso A sus dt p P_prev s w) owned h),
           P_prev + gv_ntot gv)
        \<and> fst (offdiag_directions M sus W gv c cmp) =
            (if avail2 \<and> \<not> avail1 then (d2, c2, stride2, W c2 cmp, sigma sus c d2)
             else (d1, c1, stride1, W c1 cmp, if W c1 cmp \<noteq> NULL then sigma sus c d1 else NULL))
        \<and> snd (offdiag_directions M sus W gv c cmp) =
            (if avail2 \<and> \<not> avail1 then (d1, c1, stride1, W c1 cmp, NULL)
             else (d2, c2, stride2, W c2 cmp, if W c2 cmp \<noteq> NULL then sigma sus c d2 else NULL)))"
  using assms by (auto simp: update_P_c_def offdiag_directions_def Let_def)

theorem update_P_c_branches_witness:
  "update_P_c real_arith x_meep x_sus x_P x_W2 (1 / 2) x_gv E_x 0 (x_mem, 400) =
     (fold (point_2x2 real_arith x_sus (1 / 2) 300 400 100 200 120 220 1 2) [0, 1, 2, 3] x_mem, 404)
   \<and> fst (offdiag_directions x_meep x_sus x_W2 x_gv E_x 0) = (Z_dir, E_z, 1, 220, 120)
   \<and> snd (offdiag_directions x_meep x_sus x_W2 x_gv E_x 0) = (Y_dir, E_y, 1, NULL, NULL)"
  using update_P_c_branches [of x_P E_x 0 x_W2 x_sus x_meep x_gv real_arith "1 / 2" x_mem 400]
  by (simp add: x_meep_def x_sus_def x_P_def x_W2_def x_gv_def NULL_def Let_def)

subsection \<open>A polarization array without its field or its diagonal coupling\<close>

text \<open>
  C8, as the code has it.  When \<^verbatim>\<open>P[c][cmp]\<close> is allocated and \<^verbatim>\<open>W[c][cmp]\<close> or the
  diagonal coupling array is null, the iteration for that pair writes nothing and moves the
  cursor \<^verbatim>\<open>gv.ntot()\<close> cells on: the test \<^verbatim>\<open>if (w && s)\<close> skips the pair, and the loops go
  on to the next pair.  \<^verbatim>\<open>update_P\<close> contains no assertion and no abort.
\<close>

theorem update_P_c_skips_mismatch:
  assumes "P c cmp \<noteq> NULL"
    and "W c cmp = NULL \<or> sigma sus c (component_direction M c) = NULL"
  shows "update_P_c A M sus P W dt gv c cmp (h, P_prev) = (h, P_prev + gv_ntot gv)"
  using assms by (auto simp: update_P_c_def Let_def)

theorem update_P_c_skips_mismatch_witness:
  "x_P E_x 1 \<noteq> NULL \<and> x_W E_x 1 = NULL \<and>
   update_P_c real_arith x_meep x_sus x_P x_W (1 / 2) x_gv E_x 1 (x_mem, 404) = (x_mem, 408)"
  using update_P_c_skips_mismatch [of x_P E_x 1 x_W x_sus x_meep real_arith "1 / 2" x_gv x_mem 404]
  by (simp add: x_P_def x_W_def x_gv_def NULL_def)

text \<open>
  The claim of the specification, that such a call fails fast, does not hold: with the
  field set \<open>x_W1\<close> the pair \<open>(E_x, 0)\<close> has a polarization array and no field array, and
  the call returns, with the cursor at the end of the backing store, the cells of that pair
  as they were, and the next pair \<open>(E_x, 1)\<close> updated (its backing-store cell 404 holds the
  old value 310 of its polarization cell).
\<close>

lemma x_run_W1:
  "update_P_run real_arith x_meep x_sus x_P x_W1 x_W1 (1 / 2) x_gv 400 x_mem =
     (fold (point_iso real_arith x_sus (1 / 2) 310 404 100 200) [0, 1, 2, 3] x_mem, 408)"
proof -
  have 1: "update_P_c real_arith x_meep x_sus x_P x_W1 (1 / 2) x_gv E_x 0 (x_mem, 400) = (x_mem, 404)"
    by (simp add: update_P_c_def x_P_def x_W1_def x_gv_def NULL_def)
  have 2: "update_P_c real_arith x_meep x_sus x_P x_W1 (1 / 2) x_gv E_x (Suc 0) (x_mem, 404) =
      (fold (point_iso real_arith x_sus (1 / 2) 310 404 100 200) [0, 1, 2, 3] x_mem, 408)"
    by (simp add: update_P_c_def offdiag_directions_def Let_def x_meep_def x_sus_def x_P_def
        x_W1_def x_gv_def NULL_def)
  have 3: "update_P_c real_arith x_meep x_sus x_P x_W1 (1 / 2) x_gv c cmp st = st" if "c \<noteq> E_x" for c cmp st
    using that by (intro update_P_c_inactive) (simp add: x_P_def)
  show ?thesis
    by (simp add: update_P_run_pairs x_pairs 1 2 3)
qed

theorem update_P_mismatch_counterexample:
  "x_P E_x 0 \<noteq> NULL \<and> x_W1 E_x 0 = NULL \<and>
   snd (update_P_run real_arith x_meep x_sus x_P x_W1 x_W1 (1 / 2) x_gv 400 x_mem) = 408 \<and>
   update_P real_arith x_meep x_sus x_P x_W1 x_W1 (1 / 2) x_gv 400 x_mem 300 = 300 \<and>
   update_P real_arith x_meep x_sus x_P x_W1 x_W1 (1 / 2) x_gv 400 x_mem 400 = 400 \<and>
   update_P real_arith x_meep x_sus x_P x_W1 x_W1 (1 / 2) x_gv 400 x_mem 404 = 310"
proof -
  have "fold (point_iso real_arith x_sus (1 / 2) 310 404 100 200) [0, 1, 2, 3] x_mem 300 = x_mem 300"
    by (rule loop_iso_frame) simp
  moreover have
    "fold (point_iso real_arith x_sus (1 / 2) 310 404 100 200) [0, 1, 2, 3] x_mem 400 = x_mem 400"
    by (rule loop_iso_frame) simp
  moreover have
    "fold (point_iso real_arith x_sus (1 / 2) 310 404 100 200) [0, 1, 2, 3] x_mem (404 + 0) = x_mem (310 + 0)"
    by (rule loop_iso [THEN conjunct2]) simp_all
  ultimately show ?thesis
    by (simp add: update_P_def x_run_W1) (simp add: x_P_def x_W1_def x_mem_def NULL_def)
qed

subsection \<open>An entirely trivial coupling tensor\<close>








subsection \<open>The previous fields\<close>

lemma OFFDIAG_agree:
  "agree_outside R h h' \<Longrightarrow> OFFDIAG_reads i u g sx s \<inter> R = {} \<Longrightarrow>
   OFFDIAG A h i u g sx s = OFFDIAG A h' i u g sx s"
  by (simp add: OFFDIAG_def OFFDIAG_reads_def agree_outside_def)

lemma point_iso_agree:
  assumes "agree_outside R h h'" and "{p + i, pp + i, s + i, w + i} \<inter> R = {}"
  shows "agree_outside R (point_iso A sus dt p pp s w i h) (point_iso A sus dt p pp s w i h')"
  using assms by (simp add: point_iso_def Let_def agree_outside_def)

lemma point_2x2_agree:
  assumes "agree_outside R h h'" and "{p + i, pp + i, s + i, w + i} \<inter> R = {}"
    and "OFFDIAG_reads i s1 w1 is1 is0 \<inter> R = {}"
  shows "agree_outside R (point_2x2 A sus dt p pp s w s1 w1 is1 is0 i h)
           (point_2x2 A sus dt p pp s w s1 w1 is1 is0 i h')"
proof -
  have "OFFDIAG A h i s1 w1 is1 is0 = OFFDIAG A h' i s1 w1 is1 is0"
    using assms(1,3) by (rule OFFDIAG_agree)
  then show ?thesis
    using assms(1,2) by (simp add: point_2x2_def Let_def agree_outside_def)
qed

lemma point_3x3_agree:
  assumes "agree_outside R h h'" and "{p + i, pp + i, s + i, w + i} \<inter> R = {}"
    and "OFFDIAG_reads i s1 w1 is1 is0 \<inter> R = {}"
    and "OFFDIAG_reads i s2 w2 is2 is0 \<inter> R = {}"
  shows "agree_outside R (point_3x3 A sus dt p pp s w s1 w1 is1 s2 w2 is2 is0 i h)
           (point_3x3 A sus dt p pp s w s1 w1 is1 s2 w2 is2 is0 i h')"
proof -
  have "OFFDIAG A h i s1 w1 is1 is0 = OFFDIAG A h' i s1 w1 is1 is0"
    "OFFDIAG A h i s2 w2 is2 is0 = OFFDIAG A h' i s2 w2 is2 is0"
    using assms(1,3,4) by (simp_all add: OFFDIAG_agree)
  then show ?thesis
    using assms(1,2) by (simp add: point_3x3_def Let_def agree_outside_def)
qed

lemma fold_agree:
  assumes "\<And>i h h'. i \<in> set ixs \<Longrightarrow> agree_outside R h h' \<Longrightarrow> agree_outside R (f i h) (f i h')"
    and "agree_outside R h h'"
  shows "agree_outside R (fold f ixs h) (fold f ixs h')"
  using assms
proof (induction ixs arbitrary: h h')
  case Nil
  then show ?case by simp
next
  case (Cons i ixs)
  have "agree_outside R (f i h) (f i h')"
    using Cons.prems by simp
  then show ?case
    using Cons.prems(1) by (simp add: Cons.IH)
qed

lemma update_P_c_agree:
  assumes agree: "agree_outside R h h'"
    and reads: "update_P_c_reads M sus P W gv c cmp cur \<inter> R = {}"
  shows "agree_outside R (fst (update_P_c A M sus P W dt gv c cmp (h, cur)))
           (fst (update_P_c A M sus P W dt gv c cmp (h', cur)))"
proof (cases "P c cmp \<noteq> NULL \<and> W c cmp \<noteq> NULL \<and> sigma sus c (component_direction M c) \<noteq> NULL")
  case False
  then show ?thesis using agree by (auto simp: update_P_c_def Let_def)
next
  case True
  obtain d1 c1 is1 w1 s1 d2 c2 is2 w2 s2 where
    od: "offdiag_directions M sus W gv c cmp = ((d1, c1, is1, w1, s1), (d2, c2, is2, w2, s2))"
    by (metis prod_cases5 surj_pair)
  let ?p = "P c cmp" and ?w = "W c cmp" and ?s = "sigma sus c (component_direction M c)"
  let ?is = "gv_stride gv (component_direction M c) * (if is_magnetic M c then - 1 else 1)"
  let ?own = "LOOP_OVER_VOL_OWNED M gv c"
  define X where "X = (\<lambda>i. {?p + i, cur + i, ?s + i, ?w + i}
      \<union> (if s1 \<noteq> NULL then OFFDIAG_reads i s1 w1 is1 ?is else {})
      \<union> (if s1 \<noteq> NULL \<and> s2 \<noteq> NULL then OFFDIAG_reads i s2 w2 is2 ?is else {}))"
  have "update_P_c_reads M sus P W gv c cmp cur = (\<Union>i \<in> set ?own. X i)"
    using True unfolding update_P_c_reads_def Let_def od X_def by simp
  then have U: "(\<Union>i \<in> set ?own. X i) \<inter> R = {}"
    using reads by simp
  have Xi: "X i \<inter> R = {}" if "i \<in> set ?own" for i
    using U that by blast
  have r1: "{?p + i, cur + i, ?s + i, ?w + i} \<inter> R = {}" if "i \<in> set ?own" for i
    using Xi [OF that] unfolding X_def by blast
  have r2: "OFFDIAG_reads i s1 w1 is1 ?is \<inter> R = {}" if "i \<in> set ?own" "s1 \<noteq> NULL" for i
    using Xi [OF that(1)] that(2) unfolding X_def by (simp add: Int_Un_distrib2)
  have r3: "OFFDIAG_reads i s2 w2 is2 ?is \<inter> R = {}"
    if "i \<in> set ?own" "s1 \<noteq> NULL" "s2 \<noteq> NULL" for i
    using Xi [OF that(1)] that(2,3) unfolding X_def by (simp add: Int_Un_distrib2)
  have iso: "agree_outside R (fold (point_iso A sus dt ?p cur ?s ?w) ?own h)
      (fold (point_iso A sus dt ?p cur ?s ?w) ?own h')"
    using agree r1 by (intro fold_agree point_iso_agree)
  have two: "agree_outside R (fold (point_2x2 A sus dt ?p cur ?s ?w s1 w1 is1 ?is) ?own h)
      (fold (point_2x2 A sus dt ?p cur ?s ?w s1 w1 is1 ?is) ?own h')" if "s1 \<noteq> NULL"
    using agree r1 r2 that by (intro fold_agree point_2x2_agree)
  have three: "agree_outside R
      (fold (point_3x3 A sus dt ?p cur ?s ?w s1 w1 is1 s2 w2 is2 ?is) ?own h)
      (fold (point_3x3 A sus dt ?p cur ?s ?w s1 w1 is1 s2 w2 is2 ?is) ?own h')"
    if "s1 \<noteq> NULL" "s2 \<noteq> NULL"
    using agree r1 r2 r3 that by (intro fold_agree point_3x3_agree)
  show ?thesis
    using True iso two three by (simp add: update_P_c_def Let_def od)
qed

lemma update_P_fold_agree:
  assumes "agree_outside R h h'"
    and "update_P_reads_from M sus P W gv qs cur \<inter> R = {}"
  shows "agree_outside R
           (fst (fold (\<lambda>q. update_P_c A M sus P W dt gv (fst q) (snd q)) qs (h, cur)))
           (fst (fold (\<lambda>q. update_P_c A M sus P W dt gv (fst q) (snd q)) qs (h', cur)))"
  using assms
proof (induction qs arbitrary: h h' cur)
  case Nil
  then show ?case by simp
next
  case (Cons q qs)
  let ?step = "\<lambda>q. update_P_c A M sus P W dt gv (fst q) (snd q)"
  obtain h1 cur1 where st: "?step q (h, cur) = (h1, cur1)" by (cases "?step q (h, cur)")
  obtain h1' cur1' where st': "?step q (h', cur) = (h1', cur1')" by (cases "?step q (h', cur)")
  have c1: "cur1 = (if active P q then cur + gv_ntot gv else cur)"
    using snd_update_P_c [of A M sus P W dt gv "fst q" "snd q" h cur] st by (simp add: active_def)
  have c1': "cur1' = cur1"
    using snd_update_P_c [of A M sus P W dt gv "fst q" "snd q" h' cur] st' c1
    by (simp add: active_def)
  have rq: "update_P_c_reads M sus P W gv (fst q) (snd q) cur \<inter> R = {}"
    using Cons.prems(2) by (simp add: Int_Un_distrib2)
  have "agree_outside R (fst (?step q (h, cur))) (fst (?step q (h', cur)))"
    using Cons.prems(1) rq by (rule update_P_c_agree)
  then have a1: "agree_outside R h1 h1'" using st st' by simp
  have "update_P_reads_from M sus P W gv qs cur1 \<inter> R = {}"
    using Cons.prems(2) c1 by (simp add: Int_Un_distrib2)
  then have "agree_outside R (fst (fold ?step qs (h1, cur1))) (fst (fold ?step qs (h1', cur1)))"
    using a1 by (intro Cons.IH)
  then show ?case using st st' c1' by simp
qed

text \<open>
  C10.  Take two calls of \<^verbatim>\<open>update_P\<close> that differ in the argument \<open>W_prev\<close> and in the
  contents of a set \<open>R\<close> of cells, the storage of the \<open>W_prev\<close> arrays, which holds no cell
  that the call reads from the other arrays.  The two calls leave memories that are equal
  outside \<open>R\<close>: the same polarization arrays and the same backing store.
\<close>

theorem update_P_independent_of_W_prev:
  assumes "\<forall>a. a \<notin> R \<longrightarrow> h a = h' a"
    and "update_P_reads M sus P W gv P_internal_data \<inter> R = {}"
  shows "\<forall>a. a \<notin> R \<longrightarrow>
           update_P A M sus P W W_prev dt gv P_internal_data h a =
           update_P A M sus P W W_prev' dt gv P_internal_data h' a"
proof -
  have "agree_outside R h h'" using assms(1) by (simp add: agree_outside_def)
  then have "agree_outside R
      (fst (fold (\<lambda>q. update_P_c A M sus P W dt gv (fst q) (snd q)) (pairs M) (h, P_internal_data)))
      (fst (fold (\<lambda>q. update_P_c A M sus P W dt gv (fst q) (snd q)) (pairs M) (h', P_internal_data)))"
    using assms(2) unfolding update_P_reads_def by (rule update_P_fold_agree)
  then show ?thesis
    by (simp add: update_P_def update_P_run_pairs agree_outside_def)
qed

lemma x_reads:
  "update_P_reads x_meep x_sus x_P x_W x_gv 400 =
     (\<Union>i \<in> {0, 1, 2, 3}. {300 + i, 400 + i, 100 + i, 200 + i})"
proof -
  have 1: "update_P_c_reads x_meep x_sus x_P x_W x_gv E_x 0 400 =
      (\<Union>i \<in> {0, 1, 2, 3}. {300 + i, 400 + i, 100 + i, 200 + i})"
    by (simp add: update_P_c_reads_def offdiag_directions_def Let_def x_meep_def x_sus_def x_P_def
        x_W_def x_gv_def NULL_def)
  have 2: "update_P_c_reads x_meep x_sus x_P x_W x_gv E_x (Suc 0) cur = {}" for cur
    by (simp add: update_P_c_reads_def Let_def x_W_def)
  have 3: "update_P_c_reads x_meep x_sus x_P x_W x_gv c cmp cur = {}" if "c \<noteq> E_x" for c cmp cur
    using that by (simp add: update_P_c_reads_def Let_def x_P_def)
  have act: "active x_P q = (fst q = E_x)" for q
    by (simp add: active_def x_P_def NULL_def)
  have gvn: "gv_ntot x_gv = 4"
    by (simp add: x_gv_def)
  show ?thesis
    unfolding update_P_reads_def x_pairs
    by (simp add: 1 2 3 act gvn)
qed

theorem update_P_independent_of_W_prev_witness:
  "update_P real_arith x_meep x_sus x_P x_W (\<lambda>c cmp. 500) (1 / 2) x_gv 400 x_mem 301 =
   update_P real_arith x_meep x_sus x_P x_W (\<lambda>c cmp. NULL) (1 / 2) x_gv 400
     (\<lambda>a. if 500 \<le> a \<and> a < 520 then 0 else x_mem a) 301"
proof -
  have agree: "\<forall>a. a \<notin> {500 ..< 520} \<longrightarrow> x_mem a = (if 500 \<le> a \<and> a < 520 then 0 else x_mem a)"
    by simp
  have reads: "update_P_reads x_meep x_sus x_P x_W x_gv 400 \<inter> {500 ..< 520} = {}"
    unfolding x_reads by simp
  have "\<forall>a. a \<notin> {500 ..< 520} \<longrightarrow>
      update_P real_arith x_meep x_sus x_P x_W (\<lambda>c cmp. 500) (1 / 2) x_gv 400 x_mem a =
      update_P real_arith x_meep x_sus x_P x_W (\<lambda>c cmp. NULL) (1 / 2) x_gv 400
        (\<lambda>a. if 500 \<le> a \<and> a < 520 then 0 else x_mem a) a"
    by (rule update_P_independent_of_W_prev [OF agree reads])
  then show ?thesis by simp
qed

section \<open>clone\<close>

lemma clone_invD:
  assumes "clone_inv this h brk S (sus, h', brk')" and "q \<in> S"
  shows "trivial_sigma sus (fst q) (snd q) = trivial_sigma this (fst q) (snd q)"
    and "sigma this (fst q) (snd q) = NULL \<Longrightarrow> sigma sus (fst q) (snd q) = NULL"
    and "sigma this (fst q) (snd q) \<noteq> NULL \<Longrightarrow> brk \<le> sigma sus (fst q) (snd q)"
    and "sigma this (fst q) (snd q) \<noteq> NULL \<Longrightarrow> sigma sus (fst q) (snd q) + ntot this \<le> brk'"
    and "sigma this (fst q) (snd q) \<noteq> NULL \<Longrightarrow> 0 \<le> k \<Longrightarrow> k < ntot this \<Longrightarrow>
           h' (sigma sus (fst q) (snd q) + k) = h (sigma this (fst q) (snd q) + k)"
    and "sigma this (fst q) (snd q) \<noteq> NULL \<Longrightarrow> q' \<in> S \<Longrightarrow> q' \<noteq> q \<Longrightarrow>
           sigma this (fst q') (snd q') \<noteq> NULL \<Longrightarrow>
           sep (sigma sus (fst q) (snd q)) (ntot this) (sigma sus (fst q') (snd q')) (ntot this)"
  using assms unfolding clone_inv_def by simp_all

lemma clone_inv_step:
  assumes inv: "clone_inv this h brk S (sus, h', brk')"
    and sus2: "sus2 = sus\<lparr>sigma := (sigma sus)(c := (sigma sus c)(d := a2)),
                      trivial_sigma :=
                        (trivial_sigma sus)(c := (trivial_sigma sus c)(d := trivial_sigma this c d))\<rparr>"
    and old: "\<forall>a. a < brk' \<longrightarrow> h2 a = h' a"
    and b2: "brk' \<le> b2"
    and null: "sigma this c d = NULL \<longrightarrow> a2 = NULL"
    and fresh: "sigma this c d \<noteq> NULL \<longrightarrow>
                  a2 = brk' \<and> brk' + ntot this \<le> b2 \<and>
                  (\<forall>k. 0 \<le> k \<and> k < ntot this \<longrightarrow> h2 (brk' + k) = h (sigma this c d + k))"
    and n0: "0 \<le> ntot this"
  shows "clone_inv this h brk (insert (c, d) S) (sus2, h2, b2)"
proof -
  let ?n = "ntot this"
  have b: "brk \<le> brk'" and same: "\<forall>a. a < brk \<longrightarrow> h' a = h a"
    and fields: "next_sus sus = None" "ntot sus = ntot this" "id_sus sus = id_sus this"
      "omega_0 sus = omega_0 this" "gamma sus = gamma this"
      "no_omega_0_denominator sus = no_omega_0_denominator this"
    using inv unfolding clone_inv_def by simp_all
  have at_cd: "sigma sus2 c d = a2" "trivial_sigma sus2 c d = trivial_sigma this c d"
    by (simp_all add: sus2)
  have other: "sigma sus2 (fst q) (snd q) = sigma sus (fst q) (snd q)"
    "trivial_sigma sus2 (fst q) (snd q) = trivial_sigma sus (fst q) (snd q)"
    if "q \<noteq> (c, d)" for q
    using that by (cases q; auto simp: sus2)+
  have entry: "trivial_sigma sus2 (fst q) (snd q) = trivial_sigma this (fst q) (snd q) \<and>
           (sigma this (fst q) (snd q) = NULL \<longrightarrow> sigma sus2 (fst q) (snd q) = NULL) \<and>
           (sigma this (fst q) (snd q) \<noteq> NULL \<longrightarrow>
              brk \<le> sigma sus2 (fst q) (snd q) \<and> sigma sus2 (fst q) (snd q) + ?n \<le> b2 \<and>
              (\<forall>k. 0 \<le> k \<and> k < ?n \<longrightarrow>
                 h2 (sigma sus2 (fst q) (snd q) + k) = h (sigma this (fst q) (snd q) + k)) \<and>
              (\<forall>q' \<in> insert (c, d) S. q' \<noteq> q \<and> sigma this (fst q') (snd q') \<noteq> NULL \<longrightarrow>
                 sep (sigma sus2 (fst q) (snd q)) ?n (sigma sus2 (fst q') (snd q')) ?n))"
    if q: "q \<in> insert (c, d) S" for q
  proof (cases "q = (c, d)")
    case True
    have sepq: "sep a2 ?n (sigma sus2 (fst q') (snd q')) ?n"
      if nn: "sigma this c d \<noteq> NULL" and q': "q' \<in> insert (c, d) S" "q' \<noteq> (c, d)"
        "sigma this (fst q') (snd q') \<noteq> NULL" for q'
    proof -
      have "q' \<in> S" using q' by simp
      then have "sigma sus (fst q') (snd q') + ?n \<le> brk'"
        using clone_invD(4) [OF inv] q'(3) by simp
      then show ?thesis
        using fresh nn other(1) [OF q'(2)] by (simp add: sep_def)
    qed
    show ?thesis
      using True at_cd null fresh b sepq by auto
  next
    case neq: False
    then have qS: "q \<in> S" using q by simp
    note D = clone_invD [OF inv qS]
    have sepq: "sep (sigma sus (fst q) (snd q)) ?n (sigma sus2 (fst q') (snd q')) ?n"
      if nn: "sigma this (fst q) (snd q) \<noteq> NULL" and q': "q' \<in> insert (c, d) S" "q' \<noteq> q"
        "sigma this (fst q') (snd q') \<noteq> NULL" for q'
    proof (cases "q' = (c, d)")
      case True
      then show ?thesis
        using D(4) [OF nn] fresh q'(3) at_cd by (simp add: sep_def)
    next
      case False
      then have "q' \<in> S" using q' by simp
      then show ?thesis
        using D(6) [OF nn _ q'(2,3)] other(1) [OF False] by simp
    qed
    have content: "h2 (sigma sus (fst q) (snd q) + k) = h (sigma this (fst q) (snd q) + k)"
      if "sigma this (fst q) (snd q) \<noteq> NULL" "0 \<le> k" "k < ?n" for k
      using D(4) [OF that(1)] D(5) [OF that] old that by simp
    show ?thesis
      unfolding other [OF neq]
      using D(1,2,3,4) b2 content sepq by auto
  qed
  have low: "\<forall>a. a < brk \<longrightarrow> h2 a = h a"
    using old same b by simp
  have fields2: "next_sus sus2 = None" "ntot sus2 = ntot this" "id_sus sus2 = id_sus this"
    "omega_0 sus2 = omega_0 this" "gamma sus2 = gamma this"
    "no_omega_0_denominator sus2 = no_omega_0_denominator this"
    using fields by (simp_all add: sus2)
  have bound: "brk \<le> b2" using b b2 by simp
  show ?thesis
    unfolding clone_inv_def prod.case
    using bound low fields2 entry by blast
qed

lemma clone_entry_inv:
  assumes inv: "clone_inv this h brk S st"
    and n0: "0 \<le> ntot this"
    and alloc: "sigma this c d \<noteq> NULL \<longrightarrow> sigma this c d + ntot this \<le> brk"
  shows "\<exists>st'. clone_entry this c d (Some st) = Some st' \<and> clone_inv this h brk (insert (c, d) S) st'"
proof -
  obtain sus h' brk' where st: "st = (sus, h', brk')" by (cases st)
  have b: "brk \<le> brk'" and same: "\<forall>a. a < brk \<longrightarrow> h' a = h a"
    using inv unfolding clone_inv_def st by simp_all
  show ?thesis
  proof (cases "sigma this c d = NULL")
    case True
    let ?sus = "sus\<lparr>sigma := (sigma sus)(c := (sigma sus c)(d := NULL)),
                      trivial_sigma :=
                        (trivial_sigma sus)(c := (trivial_sigma sus c)(d := trivial_sigma this c d))\<rparr>"
    have step: "clone_entry this c d (Some st) = Some (?sus, h', brk')"
      using True by (simp add: clone_entry_def st)
    have "clone_inv this h brk (insert (c, d) S) (?sus, h', brk')"
      using True n0 by (intro clone_inv_step [OF inv [unfolded st] refl]) simp_all
    then show ?thesis using step by blast
  next
    case False
    let ?n = "ntot this"
    let ?sus = "sus\<lparr>sigma := (sigma sus)(c := (sigma sus c)(d := brk')),
                      trivial_sigma :=
                        (trivial_sigma sus)(c := (trivial_sigma sus c)(d := trivial_sigma this c d))\<rparr>"
    let ?h = "memcpy brk' (sigma this c d) ?n h'"
    have step: "clone_entry this c d (Some st) = Some (?sus, ?h, brk' + ?n)"
      using False n0 by (simp add: clone_entry_def st new_realnum_def)
    have below: "sigma this c d + ?n \<le> brk" using alloc False by simp
    have old: "\<forall>a. a < brk' \<longrightarrow> ?h a = h' a"
      by (simp add: memcpy_def)
    have new: "\<forall>k. 0 \<le> k \<and> k < ?n \<longrightarrow> ?h (brk' + k) = h (sigma this c d + k)"
      using below b same by (simp add: memcpy_def)
    have "clone_inv this h brk (insert (c, d) S) (?sus, ?h, brk' + ?n)"
      using False n0 old new by (intro clone_inv_step [OF inv [unfolded st] refl]) simp_all
    then show ?thesis using step by blast
  qed
qed

lemma clone_fold_inv:
  assumes n0: "0 \<le> ntot this"
    and alloc: "\<forall>q \<in> set qs. sigma this (fst q) (snd q) \<noteq> NULL \<longrightarrow>
                  sigma this (fst q) (snd q) + ntot this \<le> brk"
    and inv: "clone_inv this h brk S st"
  shows "\<exists>st'. fold (\<lambda>q. clone_entry this (fst q) (snd q)) qs (Some st) = Some st' \<and>
           clone_inv this h brk (S \<union> set qs) st'"
  using alloc inv
proof (induction qs arbitrary: S st)
  case Nil
  then show ?case by simp
next
  case (Cons q qs)
  obtain st1 where st1: "clone_entry this (fst q) (snd q) (Some st) = Some st1"
    and inv1: "clone_inv this h brk (insert (fst q, snd q) S) st1"
    using clone_entry_inv [OF Cons.prems(2) n0, of "fst q" "snd q"] Cons.prems(1) by auto
  obtain st' where "fold (\<lambda>q. clone_entry this (fst q) (snd q)) qs (Some st1) = Some st'"
    and "clone_inv this h brk (insert (fst q, snd q) S \<union> set qs) st'"
    using Cons.IH [OF _ inv1] Cons.prems(1) by auto
  then show ?case using st1 by auto
qed

lemma clone_inv_init:
  "clone_inv this h brk {} (this\<lparr>next_sus := None, ntot := ntot this, id_sus := id_sus this\<rparr>, h, brk)"
  by (simp add: clone_inv_def)

lemma clone_pairs:
  "clone M this h brk =
     fold (\<lambda>q. clone_entry this (fst q) (snd q)) (List.product (FOR_COMPONENTS M) (FOR_DIRECTIONS M))
       (Some (this\<lparr>next_sus := None, ntot := ntot this, id_sus := id_sus this\<rparr>, h, brk))"
  unfolding clone_def susceptibility_copy_def by (rule fold_nested)

text \<open>
  C6.  Let the arrays of the original lie in the memory handed out so far (below \<open>brk\<close>)
  and \<open>ntot\<close> be non-negative.  Then \<^verbatim>\<open>clone\<close> returns an object with the id and the
  oscillator parameters of the original and an empty chain link; for every entry \<open>(c, d)\<close>
  of the loops the trivial flag is the original's, a null entry stays null, and a non-null
  entry points to a block of \<open>ntot\<close> cells of the free store that holds the original's
  values and lies apart from the block of every other entry; the memory below \<open>brk\<close>, and so
  every array of the original, is as it was; and a later write to any cell below \<open>brk\<close>
  leaves the values of the clone as they are.
\<close>

theorem clone_deep_copy:
  assumes "0 \<le> ntot this" and "0 < brk"
    and "\<forall>c \<in> set (FOR_COMPONENTS M). \<forall>d \<in> set (FOR_DIRECTIONS M).
           sigma this c d \<noteq> NULL \<longrightarrow> sigma this c d + ntot this \<le> brk"
  shows "\<exists>sus h' brk'.
     clone M this h brk = Some (sus, h', brk') \<and>
     id_sus sus = id_sus this \<and> omega_0 sus = omega_0 this \<and> gamma sus = gamma this \<and>
     no_omega_0_denominator sus = no_omega_0_denominator this \<and> next_sus sus = None \<and>
     (\<forall>a. a < brk \<longrightarrow> h' a = h a) \<and>
     (\<forall>c \<in> set (FOR_COMPONENTS M). \<forall>d \<in> set (FOR_DIRECTIONS M).
        trivial_sigma sus c d = trivial_sigma this c d \<and>
        (sigma this c d = NULL \<longrightarrow> sigma sus c d = NULL) \<and>
        (sigma this c d \<noteq> NULL \<longrightarrow>
           sigma sus c d \<noteq> NULL \<and> brk \<le> sigma sus c d \<and> sigma sus c d + ntot this \<le> brk' \<and>
           (\<forall>k. 0 \<le> k \<and> k < ntot this \<longrightarrow> h' (sigma sus c d + k) = h (sigma this c d + k)) \<and>
           (\<forall>c' \<in> set (FOR_COMPONENTS M). \<forall>d' \<in> set (FOR_DIRECTIONS M).
              (c', d') \<noteq> (c, d) \<and> sigma this c' d' \<noteq> NULL \<longrightarrow>
              sep (sigma sus c d) (ntot this) (sigma sus c' d') (ntot this)) \<and>
           (\<forall>a v k. a < brk \<and> 0 \<le> k \<and> k < ntot this \<longrightarrow>
              (h'(a := v)) (sigma sus c d + k) = h (sigma this c d + k))))"
proof -
  let ?qs = "List.product (FOR_COMPONENTS M) (FOR_DIRECTIONS M)"
  have alloc: "\<forall>q \<in> set ?qs. sigma this (fst q) (snd q) \<noteq> NULL \<longrightarrow>
      sigma this (fst q) (snd q) + ntot this \<le> brk"
    using assms(3) by auto
  obtain st' where run: "clone M this h brk = Some st'"
    and inv: "clone_inv this h brk ({} \<union> set ?qs) st'"
    using clone_fold_inv [OF assms(1) alloc clone_inv_init] unfolding clone_pairs by blast
  obtain sus h' brk' where st': "st' = (sus, h', brk')" by (cases st')
  have inv': "clone_inv this h brk (set ?qs) (sus, h', brk')"
    using inv by (simp add: st')
  have top: "id_sus sus = id_sus this" "omega_0 sus = omega_0 this" "gamma sus = gamma this"
    "no_omega_0_denominator sus = no_omega_0_denominator this" "next_sus sus = None"
    "\<forall>a. a < brk \<longrightarrow> h' a = h a"
    using inv' unfolding clone_inv_def by simp_all
  have entry: "trivial_sigma sus c d = trivial_sigma this c d \<and>
        (sigma this c d = NULL \<longrightarrow> sigma sus c d = NULL) \<and>
        (sigma this c d \<noteq> NULL \<longrightarrow>
           sigma sus c d \<noteq> NULL \<and> brk \<le> sigma sus c d \<and> sigma sus c d + ntot this \<le> brk' \<and>
           (\<forall>k. 0 \<le> k \<and> k < ntot this \<longrightarrow> h' (sigma sus c d + k) = h (sigma this c d + k)) \<and>
           (\<forall>c' \<in> set (FOR_COMPONENTS M). \<forall>d' \<in> set (FOR_DIRECTIONS M).
              (c', d') \<noteq> (c, d) \<and> sigma this c' d' \<noteq> NULL \<longrightarrow>
              sep (sigma sus c d) (ntot this) (sigma sus c' d') (ntot this)) \<and>
           (\<forall>a v k. a < brk \<and> 0 \<le> k \<and> k < ntot this \<longrightarrow>
              (h'(a := v)) (sigma sus c d + k) = h (sigma this c d + k)))"
    if cd: "c \<in> set (FOR_COMPONENTS M)" "d \<in> set (FOR_DIRECTIONS M)" for c d
  proof -
    have q: "(c, d) \<in> set ?qs" using cd by simp
    note D = clone_invD [OF inv' q, simplified]
    have sepq: "sep (sigma sus c d) (ntot this) (sigma sus c' d') (ntot this)"
      if "sigma this c d \<noteq> NULL" "c' \<in> set (FOR_COMPONENTS M)" "d' \<in> set (FOR_DIRECTIONS M)"
        "(c', d') \<noteq> (c, d)" "sigma this c' d' \<noteq> NULL" for c' d'
      using D(6) [OF that(1), of "(c', d')"] that by simp
    have nonnull: "sigma sus c d \<noteq> NULL" if "sigma this c d \<noteq> NULL"
      using D(3) [OF that] assms(2) by (simp add: NULL_def)
    have mut: "(h'(a := v)) (sigma sus c d + k) = h (sigma this c d + k)"
      if "sigma this c d \<noteq> NULL" "a < brk" "0 \<le> k" "k < ntot this" for a v k
      using D(3) [OF that(1)] D(5) [OF that(1,3,4)] that by simp
    show ?thesis
      using D(1,2,3,4,5) sepq nonnull mut by blast
  qed
  show ?thesis
    using run top entry unfolding st' by blast
qed

theorem clone_deep_copy_witness:
  "\<exists>sus h' brk'.
     clone x_meep x_sus x_mem 500 = Some (sus, h', brk') \<and>
     id_sus sus = 3 \<and> next_sus sus = None \<and> omega_0 sus = 1 \<and>
     sigma sus E_y Y_dir = NULL \<and> 500 \<le> sigma sus E_x X_dir \<and>
     h' (sigma sus E_x X_dir + 1) = 101 \<and> (h'(101 := 0)) (sigma sus E_x X_dir + 1) = 101"
proof -
  have n0: "0 \<le> ntot x_sus" by (simp add: x_sus_def)
  have alloc: "\<forall>c \<in> set (FOR_COMPONENTS x_meep). \<forall>d \<in> set (FOR_DIRECTIONS x_meep).
           sigma x_sus c d \<noteq> NULL \<longrightarrow> sigma x_sus c d + ntot x_sus \<le> 500"
    by (simp add: x_meep_def x_sus_def NULL_def)
  obtain sus h' brk' where run: "clone x_meep x_sus x_mem 500 = Some (sus, h', brk')"
    and top: "id_sus sus = id_sus x_sus" "next_sus sus = None" "omega_0 sus = omega_0 x_sus"
    and entries: "\<forall>c \<in> set (FOR_COMPONENTS x_meep). \<forall>d \<in> set (FOR_DIRECTIONS x_meep).
        trivial_sigma sus c d = trivial_sigma x_sus c d \<and>
        (sigma x_sus c d = NULL \<longrightarrow> sigma sus c d = NULL) \<and>
        (sigma x_sus c d \<noteq> NULL \<longrightarrow>
           sigma sus c d \<noteq> NULL \<and> 500 \<le> sigma sus c d \<and> sigma sus c d + ntot x_sus \<le> brk' \<and>
           (\<forall>k. 0 \<le> k \<and> k < ntot x_sus \<longrightarrow> h' (sigma sus c d + k) = x_mem (sigma x_sus c d + k)) \<and>
           (\<forall>c' \<in> set (FOR_COMPONENTS x_meep). \<forall>d' \<in> set (FOR_DIRECTIONS x_meep).
              (c', d') \<noteq> (c, d) \<and> sigma x_sus c' d' \<noteq> NULL \<longrightarrow>
              sep (sigma sus c d) (ntot x_sus) (sigma sus c' d') (ntot x_sus)) \<and>
           (\<forall>a v k. a < 500 \<and> 0 \<le> k \<and> k < ntot x_sus \<longrightarrow>
              (h'(a := v)) (sigma sus c d + k) = x_mem (sigma x_sus c d + k)))"
    using clone_deep_copy [OF n0 _ alloc, of x_mem] by auto
  have Ey: "E_y \<in> set (FOR_COMPONENTS x_meep)" and Ex: "E_x \<in> set (FOR_COMPONENTS x_meep)"
    and Y: "Y_dir \<in> set (FOR_DIRECTIONS x_meep)" and X: "X_dir \<in> set (FOR_DIRECTIONS x_meep)"
    by (simp_all add: x_meep_def)
  have 1: "sigma sus E_y Y_dir = NULL"
    using entries [rule_format, OF Ey Y] by (simp add: x_sus_def)
  have nn: "sigma x_sus E_x X_dir \<noteq> NULL" by (simp add: x_sus_def NULL_def)
  have 2: "500 \<le> sigma sus E_x X_dir"
    using entries [rule_format, OF Ex X] nn by blast
  have 3: "h' (sigma sus E_x X_dir + 1) = x_mem (sigma x_sus E_x X_dir + 1)"
    using entries [rule_format, OF Ex X] nn by (simp add: x_sus_def)
  have 4: "(h'(101 := 0)) (sigma sus E_x X_dir + 1) = x_mem (sigma x_sus E_x X_dir + 1)"
    using entries [rule_format, OF Ex X] nn by (simp add: x_sus_def)
  show ?thesis
    using run top 1 2 3 4 by (simp add: x_sus_def x_mem_def)
qed


end
